theory Spec2Isabelle
  imports Main "HOL-Library.Word"
begin

section \<open>Machine types and constants\<close>

text \<open>
  The embedding follows \<^verbatim>\<open>filesys/inode.c\<close> as compiled with \<^verbatim>\<open>EFILESYS\<close>
  (the chained-allocation build).  \<^verbatim>\<open>off_t\<close> and \<^verbatim>\<open>int\<close> are modelled as
  \<^typ>\<open>int\<close>: signed overflow is undefined in C, so the model describes the executions
  in which no such computation overflows; the one sum taken of two caller-supplied values,
  \<^verbatim>\<open>offset + size\<close> in \<^verbatim>\<open>inode_write_at\<close>, is written with the 32-bit wrap-around of the
  compiled code.  \<^verbatim>\<open>disk_sector_t\<close> and \<^verbatim>\<open>cluster_t\<close> are
  unsigned 32-bit numbers, modelled as \<^typ>\<open>nat\<close> with the conversion from a signed
  value written out.  A pointer to an in-memory inode is a \<^typ>\<open>nat option\<close> (\<open>None\<close> is
  the null pointer) into the \<open>heap\<close> of the kernel state; dereferencing a null or
  dangling pointer is the error \<open>BadPointer\<close>, a failed \<^verbatim>\<open>ASSERT\<close> is
  \<open>AssertionFailed\<close>.
\<close>

type_synonym byte = "8 word"
type_synonym off_t = int
type_synonym disk_sector_t = nat
type_synonym cluster_t = nat

definition DISK_SECTOR_SIZE :: int where
  "DISK_SECTOR_SIZE = 512"

definition INODE_MAGIC :: nat where
  "INODE_MAGIC = 0x494e4f44"

text \<open>The value of \<^verbatim>\<open>(disk_sector_t) -1\<close>, returned by \<^verbatim>\<open>byte_to_sector\<close>.\<close>

definition SECTOR_NONE :: disk_sector_t where
  "SECTOR_NONE = 4294967295"

text \<open>C division and remainder truncate towards zero.\<close>

definition c_div :: "int \<Rightarrow> int \<Rightarrow> int" where
  "c_div a b = sgn a * sgn b * (\<bar>a\<bar> div \<bar>b\<bar>)"

definition c_mod :: "int \<Rightarrow> int \<Rightarrow> int" where
  "c_mod a b = a - b * c_div a b"

text \<open>Conversion of a signed value to \<^verbatim>\<open>disk_sector_t\<close> (reduction modulo \<open>2^32\<close>).\<close>

definition to_sector :: "int \<Rightarrow> disk_sector_t" where
  "to_sector i = nat (i mod 4294967296)"

text \<open>The sum of two \<^verbatim>\<open>off_t\<close> values as the compiled code computes it: 32 bits, two's
  complement, wrapping around.\<close>

definition off_add :: "off_t \<Rightarrow> off_t \<Rightarrow> off_t" where
  "off_add a b = (a + b + 2147483648) mod 4294967296 - 2147483648"

definition zeros :: "byte list" where
  "zeros = replicate 512 0"

section \<open>The external collaborators\<close>

subsection \<open>Parameters of the chain allocator\<close>

text \<open>
  \<^verbatim>\<open>filesys/fat.h\<close> is not part of the sources at hand, so the constant
  \<^verbatim>\<open>SECTORS_PER_CLUSTER\<close> and the two address conversions are parameters of the
  model.
\<close>

record fat_params =
  SECTORS_PER_CLUSTER :: nat
  cluster_to_sector :: "cluster_t \<Rightarrow> disk_sector_t"
  sector_to_cluster :: "disk_sector_t \<Rightarrow> cluster_t"

subsection \<open>On-disk and in-memory inode\<close>

record inode_disk =
  start :: disk_sector_t
  length_d :: off_t
  magic :: nat
  unused :: "byte list"

record inode =
  sector :: disk_sector_t
  open_cnt :: int
  removed :: bool
  deny_write_cnt :: int
  data :: inode_disk

subsection \<open>Kernel state\<close>

text \<open>Calls to the block device and to the mutating operations of the chain allocator,
  in the order in which they are issued.\<close>

datatype event =
    DiskRead disk_sector_t
  | DiskWrite disk_sector_t "byte list"
  | FatCreateChain cluster_t
  | FatRemoveChain cluster_t cluster_t

datatype error = AssertionFailed | BadPointer

record kstate =
  disk :: "disk_sector_t \<Rightarrow> byte list"
  fat :: "cluster_t \<Rightarrow> cluster_t"
  fat_free :: "cluster_t list"
  fat_len :: nat
  heap :: "nat \<Rightarrow> inode option"
  open_inodes :: "nat list"
  mem_free :: "nat list"
  trace :: "event list"

subsection \<open>Block device\<close>

text \<open>
  Modelled from the spec: \<^verbatim>\<open>devices/disk.c\<close> is missing.  The block device reads and
  writes whole sectors, addressed by sector number, and does not fail.
\<close>

definition disk_read :: "kstate \<Rightarrow> disk_sector_t \<Rightarrow> byte list \<times> kstate" where
  "disk_read st sec = (disk st sec, st\<lparr>trace := trace st @ [DiskRead sec]\<rparr>)"

definition disk_write :: "kstate \<Rightarrow> disk_sector_t \<Rightarrow> byte list \<Rightarrow> kstate" where
  "disk_write st sec bs =
     st\<lparr>disk := (disk st)(sec := bs), trace := trace st @ [DiskWrite sec bs]\<rparr>"

subsection \<open>Chain allocator\<close>

text \<open>
  Modelled from the spec: \<^verbatim>\<open>filesys/fat.c\<close> is missing.  The allocator is a table
  mapping each allocation unit to its successor or to a terminator; it exposes
  allocate-and-append (\<^verbatim>\<open>fat_create_chain\<close>, which answers 0 when no unit is left),
  follow-next (\<^verbatim>\<open>fat_get\<close>) and free-chain (\<^verbatim>\<open>fat_remove_chain\<close>).  The units the
  allocator can still grant are kept in \<open>fat_free\<close>, in the order in which they will be
  granted; the allocator is exhausted when that list is empty.
\<close>

definition EOChain :: cluster_t where
  "EOChain = 0x0FFFFFFF"

definition fat_get :: "kstate \<Rightarrow> cluster_t \<Rightarrow> cluster_t" where
  "fat_get st clst = fat st clst"

definition fat_create_chain :: "kstate \<Rightarrow> cluster_t \<Rightarrow> cluster_t \<times> kstate" where
  "fat_create_chain st clst =
     (case fat_free st of
        [] \<Rightarrow> (0, st\<lparr>trace := trace st @ [FatCreateChain clst]\<rparr>)
      | c # cs \<Rightarrow>
          (c, st\<lparr>fat := (if clst = 0 then (fat st)(c := EOChain)
                          else (fat st)(c := EOChain, clst := c)),
                 fat_free := cs,
                 trace := trace st @ [FatCreateChain clst]\<rparr>))"

text \<open>The units of the chain that starts at \<open>c\<close>, following at most \<open>n\<close> links.\<close>

fun chain_units :: "(cluster_t \<Rightarrow> cluster_t) \<Rightarrow> nat \<Rightarrow> cluster_t \<Rightarrow> cluster_t list" where
  "chain_units nxt 0 c = []"
| "chain_units nxt (Suc n) c =
     (if c = 0 \<or> c = EOChain then [] else c # chain_units nxt n (nxt c))"

text \<open>
  Modelled from the spec: frees the chain that starts at \<open>clst\<close>.  Every caller in
  \<^verbatim>\<open>inode.c\<close> passes 0 as second argument (the chain is freed from its head).  A chain
  of a table with \<open>fat_len\<close> entries has at most \<open>fat_len\<close> units.
\<close>

definition fat_remove_chain :: "kstate \<Rightarrow> cluster_t \<Rightarrow> cluster_t \<Rightarrow> kstate" where
  "fat_remove_chain st clst pclst =
     (let cs = chain_units (fat st) (fat_len st) clst
      in st\<lparr>fat := (\<lambda>c. if c \<in> set cs then 0 else fat st c),
            fat_free := fat_free st @ cs,
            trace := trace st @ [FatRemoveChain clst pclst]\<rparr>)"

subsection \<open>Kernel memory allocator\<close>

text \<open>
  Modelled from the spec: \<^verbatim>\<open>threads/malloc.c\<close> is missing.  \<open>mem_free\<close> lists the
  blocks \<^verbatim>\<open>malloc\<close> can still hand out; \<^verbatim>\<open>malloc\<close> answers a null pointer
  (\<open>None\<close>) when there is none, and \<^verbatim>\<open>free\<close> gives a block back.
\<close>

definition malloc :: "kstate \<Rightarrow> nat option \<times> kstate" where
  "malloc st =
     (case mem_free st of
        [] \<Rightarrow> (None, st)
      | a # as \<Rightarrow> (Some a, st\<lparr>mem_free := as\<rparr>))"

definition free :: "kstate \<Rightarrow> nat option \<Rightarrow> kstate" where
  "free st p =
     (case p of
        None \<Rightarrow> st
      | Some a \<Rightarrow> st\<lparr>mem_free := a # mem_free st\<rparr>)"

section \<open>Offset translation\<close>

text \<open>\<^verbatim>\<open>for (i = 0; i < nth_cluster; i++) clst = fat_get (clst);\<close>\<close>

fun follow :: "kstate \<Rightarrow> nat \<Rightarrow> cluster_t \<Rightarrow> cluster_t" where
  "follow st 0 clst = clst"
| "follow st (Suc n) clst = follow st n (fat_get st clst)"

definition byte_to_sector :: "fat_params \<Rightarrow> kstate \<Rightarrow> inode \<Rightarrow> off_t \<Rightarrow> disk_sector_t" where
  "byte_to_sector P st ino pos =
     (if pos > length_d (data ino) then SECTOR_NONE
      else
        let nth_cluster = c_div (c_div pos DISK_SECTOR_SIZE) (int (SECTORS_PER_CLUSTER P));
            clst = follow st (nat nth_cluster) (sector_to_cluster P (start (data ino)));
            clst_ofs = pos - nth_cluster * int (SECTORS_PER_CLUSTER P) * DISK_SECTOR_SIZE
        in to_sector (int (cluster_to_sector P clst) + c_div clst_ofs DISK_SECTOR_SIZE))"

definition inode_length :: "inode \<Rightarrow> off_t" where
  "inode_length ino = length_d (data ino)"

section \<open>The inode record on the device\<close>

text \<open>
  \<^verbatim>\<open>disk_write (filesys_disk, sector, disk_inode)\<close> stores the bytes of
  \<^verbatim>\<open>struct inode_disk\<close>: three 32-bit little-endian fields and 500 bytes of padding.
\<close>

fun nat_le :: "nat \<Rightarrow> nat \<Rightarrow> byte list" where
  "nat_le 0 n = []"
| "nat_le (Suc k) n = of_nat n # nat_le k (n div 256)"

fun le_nat :: "byte list \<Rightarrow> nat" where
  "le_nat [] = 0"
| "le_nat (b # bs) = unat b + 256 * le_nat bs"

definition encode_off :: "off_t \<Rightarrow> byte list" where
  "encode_off i = nat_le 4 (nat (i mod 4294967296))"

definition decode_off :: "byte list \<Rightarrow> off_t" where
  "decode_off bs =
     (let v = int (le_nat bs) in if v \<ge> 2147483648 then v - 4294967296 else v)"

definition encode_inode :: "inode_disk \<Rightarrow> byte list" where
  "encode_inode d = nat_le 4 (start d) @ encode_off (length_d d) @ nat_le 4 (magic d) @ unused d"

definition decode_inode :: "byte list \<Rightarrow> inode_disk" where
  "decode_inode bs =
     \<lparr>start = le_nat (take 4 bs),
      length_d = decode_off (take 4 (drop 4 bs)),
      magic = le_nat (take 4 (drop 8 bs)),
      unused = drop 12 bs\<rparr>"

section \<open>Creation\<close>

text \<open>The \<^verbatim>\<open>while (length >= 0)\<close> loop of \<^verbatim>\<open>inode_create\<close>.  The first component of
  the result is false when \<^verbatim>\<open>fat_create_chain\<close> answered 0.\<close>

function create_chain ::
  "fat_params \<Rightarrow> kstate \<Rightarrow> inode_disk \<Rightarrow> off_t \<Rightarrow> cluster_t \<Rightarrow> bool \<Rightarrow> bool \<times> kstate \<times> inode_disk"
where
  "create_chain P st disk_inode len startclst first =
     (if len \<ge> 0 then
        (case fat_create_chain st startclst of
           (c, st1) \<Rightarrow>
             if c = 0 then (False, st1, disk_inode)
             else
               let di1 = (if first then disk_inode\<lparr>start := cluster_to_sector P c\<rparr>
                          else disk_inode);
                   st2 = disk_write st1 (cluster_to_sector P c) zeros
               in create_chain P st2 di1 (len - DISK_SECTOR_SIZE) c False)
      else (True, st, disk_inode))"
  by pat_completeness auto
termination
  by (relation "measure (\<lambda>(P, st, di, len, c, f). nat (len + 1))")
     (auto simp: DISK_SECTOR_SIZE_def)

declare create_chain.simps [simp del]

text \<open>On the \<^verbatim>\<open>return false\<close> inside the loop the record allocated by \<^verbatim>\<open>calloc\<close> is
  not given back.\<close>

definition inode_create ::
  "fat_params \<Rightarrow> kstate \<Rightarrow> disk_sector_t \<Rightarrow> off_t \<Rightarrow> error + (bool \<times> kstate)"
where
  "inode_create P st sec len =
     (if \<not> len \<ge> 0 then Inl AssertionFailed
      else
        (case malloc st of
           (None, st0) \<Rightarrow> Inr (False, st0)
         | (Some a, st0) \<Rightarrow>
             let disk_inode = \<lparr>start = 0, length_d = len, magic = INODE_MAGIC,
                               unused = replicate 500 0\<rparr>
             in (case create_chain P st0 disk_inode len 0 True of
                   (False, st1, di) \<Rightarrow> Inr (False, st1)
                 | (True, st1, di) \<Rightarrow>
                     let st2 = disk_write st1 sec (encode_inode di)
                     in Inr (True, free st2 (Some a)))))"

section \<open>Open, reopen, close, remove\<close>

definition inode_reopen :: "kstate \<Rightarrow> nat option \<Rightarrow> error + (nat option \<times> kstate)" where
  "inode_reopen st p =
     (case p of
        None \<Rightarrow> Inr (None, st)
      | Some a \<Rightarrow>
          (case heap st a of
             None \<Rightarrow> Inl BadPointer
           | Some ino \<Rightarrow>
               Inr (Some a, st\<lparr>heap := (heap st)(a \<mapsto> ino\<lparr>open_cnt := open_cnt ino + 1\<rparr>)\<rparr>)))"

definition inode_open :: "kstate \<Rightarrow> disk_sector_t \<Rightarrow> error + (nat option \<times> kstate)" where
  "inode_open st sec =
     (case find (\<lambda>a. case heap st a of None \<Rightarrow> False | Some i \<Rightarrow> sector i = sec)
             (open_inodes st) of
        Some a \<Rightarrow> inode_reopen st (Some a)
      | None \<Rightarrow>
          (case malloc st of
             (None, st1) \<Rightarrow> Inr (None, st1)
           | (Some a, st1) \<Rightarrow>
               let st2 = st1\<lparr>open_inodes := a # open_inodes st1\<rparr>;
                   (bs, st3) = disk_read st2 sec;
                   ino = \<lparr>sector = sec, open_cnt = 1, removed = False, deny_write_cnt = 0,
                          data = decode_inode bs\<rparr>
               in Inr (Some a, st3\<lparr>heap := (heap st3)(a \<mapsto> ino)\<rparr>)))"

definition inode_get_inumber :: "kstate \<Rightarrow> nat option \<Rightarrow> error + disk_sector_t" where
  "inode_get_inumber st p =
     (case p of
        None \<Rightarrow> Inl BadPointer
      | Some a \<Rightarrow> (case heap st a of None \<Rightarrow> Inl BadPointer | Some ino \<Rightarrow> Inr (sector ino)))"

definition inode_close :: "fat_params \<Rightarrow> kstate \<Rightarrow> nat option \<Rightarrow> error + kstate" where
  "inode_close P st p =
     (case p of
        None \<Rightarrow> Inr st
      | Some a \<Rightarrow>
          (case heap st a of
             None \<Rightarrow> Inl BadPointer
           | Some ino0 \<Rightarrow>
               let ino = ino0\<lparr>open_cnt := open_cnt ino0 - 1\<rparr>
               in if open_cnt ino = 0 then
                    let st1 = st\<lparr>open_inodes := remove1 a (open_inodes st)\<rparr>;
                        st2 = disk_write st1 (sector ino) (encode_inode (data ino));
                        st3 = (if removed ino then
                                 fat_remove_chain
                                   (fat_remove_chain st2 (sector_to_cluster P (sector ino)) 0)
                                   (sector_to_cluster P (start (data ino))) 0
                               else st2)
                    in Inr ((free st3 (Some a))\<lparr>heap := (heap st3)(a := None)\<rparr>)
                  else Inr (st\<lparr>heap := (heap st)(a \<mapsto> ino)\<rparr>)))"

definition inode_remove :: "kstate \<Rightarrow> nat option \<Rightarrow> error + kstate" where
  "inode_remove st p =
     (case p of
        None \<Rightarrow> Inl AssertionFailed
      | Some a \<Rightarrow>
          (case heap st a of
             None \<Rightarrow> Inl BadPointer
           | Some ino \<Rightarrow> Inr (st\<lparr>heap := (heap st)(a \<mapsto> ino\<lparr>removed := True\<rparr>)\<rparr>)))"

section \<open>Write denial\<close>

definition inode_deny_write :: "kstate \<Rightarrow> nat option \<Rightarrow> error + kstate" where
  "inode_deny_write st p =
     (case p of
        None \<Rightarrow> Inl BadPointer
      | Some a \<Rightarrow>
          (case heap st a of
             None \<Rightarrow> Inl BadPointer
           | Some ino0 \<Rightarrow>
               let ino = ino0\<lparr>deny_write_cnt := deny_write_cnt ino0 + 1\<rparr>
               in if \<not> deny_write_cnt ino \<le> open_cnt ino then Inl AssertionFailed
                  else Inr (st\<lparr>heap := (heap st)(a \<mapsto> ino)\<rparr>)))"

definition inode_allow_write :: "kstate \<Rightarrow> nat option \<Rightarrow> error + kstate" where
  "inode_allow_write st p =
     (case p of
        None \<Rightarrow> Inl BadPointer
      | Some a \<Rightarrow>
          (case heap st a of
             None \<Rightarrow> Inl BadPointer
           | Some ino \<Rightarrow>
               if \<not> deny_write_cnt ino > 0 then Inl AssertionFailed
               else if \<not> deny_write_cnt ino \<le> open_cnt ino then Inl AssertionFailed
               else Inr (st\<lparr>heap :=
                           (heap st)(a \<mapsto> ino\<lparr>deny_write_cnt := deny_write_cnt ino - 1\<rparr>)\<rparr>)))"

section \<open>Reading\<close>

text \<open>
  The \<^verbatim>\<open>while (size > 0)\<close> loop of \<^verbatim>\<open>inode_read_at\<close>.  The bytes stored at
  \<^verbatim>\<open>buffer + bytes_read\<close> are appended to \<open>buffer\<close>; \<open>bounce\<close> is the scratch
  buffer, a null pointer until the first partial chunk.
\<close>

function read_loop ::
  "fat_params \<Rightarrow> inode \<Rightarrow> kstate \<Rightarrow> byte list \<Rightarrow> off_t \<Rightarrow> off_t \<Rightarrow> off_t \<Rightarrow> nat option
     \<Rightarrow> off_t \<times> byte list \<times> nat option \<times> kstate"
where
  "read_loop P ino st buffer sz offset bytes_read bounce =
     (if sz > 0 then
        let sector_idx = byte_to_sector P st ino offset;
            sector_ofs = c_mod offset DISK_SECTOR_SIZE;
            inode_left = inode_length ino - offset;
            sector_left = DISK_SECTOR_SIZE - sector_ofs;
            min_left = (if inode_left < sector_left then inode_left else sector_left);
            chunk_size = (if sz < min_left then sz else min_left)
        in if chunk_size \<le> 0 then (bytes_read, buffer, bounce, st)
           else if sector_ofs = 0 \<and> chunk_size = DISK_SECTOR_SIZE then
             (case disk_read st sector_idx of
                (bs, st1) \<Rightarrow>
                  read_loop P ino st1 (buffer @ bs) (sz - chunk_size) (offset + chunk_size)
                    (bytes_read + chunk_size) bounce)
           else
             (case (if bounce = None then malloc st else (bounce, st)) of
                (None, st1) \<Rightarrow> (bytes_read, buffer, None, st1)
              | (Some b, st1) \<Rightarrow>
                  (case disk_read st1 sector_idx of
                     (bs, st2) \<Rightarrow>
                       read_loop P ino st2
                         (buffer @ take (nat chunk_size) (drop (nat sector_ofs) bs))
                         (sz - chunk_size) (offset + chunk_size)
                         (bytes_read + chunk_size) (Some b)))
      else (bytes_read, buffer, bounce, st))"
  by pat_completeness auto
termination
  by (relation "measure (\<lambda>(P, ino, st, buffer, sz, offset, bytes_read, bounce). nat sz)")
     (auto split: if_splits)

declare read_loop.simps [simp del]

text \<open>
  With a null handle nothing is dereferenced before the loop: for \<open>size \<le> 0\<close> the loop is
  not entered and 0 is returned; otherwise the first call of \<^verbatim>\<open>byte_to_sector\<close> fails its
  \<^verbatim>\<open>ASSERT (inode != NULL)\<close>.
\<close>

definition inode_read_at ::
  "fat_params \<Rightarrow> kstate \<Rightarrow> nat option \<Rightarrow> off_t \<Rightarrow> off_t \<Rightarrow> error + (off_t \<times> byte list \<times> kstate)"
where
  "inode_read_at P st p sz offset =
     (case p of
        None \<Rightarrow> (if sz > 0 then Inl AssertionFailed else Inr (0, [], st))
      | Some a \<Rightarrow>
          (case heap st a of
             None \<Rightarrow> Inl BadPointer
           | Some ino \<Rightarrow>
               (case read_loop P ino st [] sz offset 0 None of
                  (bytes_read, buffer, bounce, st1) \<Rightarrow>
                    Inr (bytes_read, buffer, free st1 bounce))))"

section \<open>Growth\<close>

text \<open>The \<^verbatim>\<open>while (growth < new_length - origin_length)\<close> loop of \<^verbatim>\<open>file_growth\<close>.\<close>

function grow_chain ::
  "fat_params \<Rightarrow> kstate \<Rightarrow> inode \<Rightarrow> off_t \<Rightarrow> off_t \<Rightarrow> off_t \<Rightarrow> cluster_t
     \<Rightarrow> bool \<times> kstate \<times> inode"
where
  "grow_chain P st ino new_length origin_length growth last_clst =
     (if growth < new_length - origin_length then
        (case fat_create_chain st last_clst of
           (c, st1) \<Rightarrow>
             if c = 0 then
               (if c_mod origin_length DISK_SECTOR_SIZE = 0 then
                  (False, st1, ino\<lparr>data := (data ino)\<lparr>length_d := origin_length + growth\<rparr>\<rparr>)
                else
                  (False, st1,
                   ino\<lparr>data := (data ino)\<lparr>length_d :=
                     origin_length + growth - c_mod growth DISK_SECTOR_SIZE
                       + DISK_SECTOR_SIZE\<rparr>\<rparr>))
             else
               grow_chain P (disk_write st1 (cluster_to_sector P c) zeros) ino
                 new_length origin_length (growth + DISK_SECTOR_SIZE) c)
      else (True, st, ino))"
  by pat_completeness auto
termination
  by (relation "measure (\<lambda>(P, st, ino, new_length, origin_length, growth, c).
                   nat (new_length - origin_length - growth))")
     (auto simp: DISK_SECTOR_SIZE_def)

declare grow_chain.simps [simp del]

definition file_growth :: "fat_params \<Rightarrow> kstate \<Rightarrow> inode \<Rightarrow> off_t \<Rightarrow> bool \<times> kstate \<times> inode" where
  "file_growth P st ino0 new_length =
     (let origin_length = inode_length ino0;
          last_clst = sector_to_cluster P (byte_to_sector P st ino0 origin_length);
          ino = ino0\<lparr>data := (data ino0)\<lparr>length_d := new_length\<rparr>\<rparr>
      in if c_mod origin_length DISK_SECTOR_SIZE = 0
            \<or> new_length > origin_length - c_mod origin_length DISK_SECTOR_SIZE
                              + DISK_SECTOR_SIZE
         then grow_chain P st ino new_length origin_length 0 last_clst
         else (True, st, ino))"

section \<open>Writing\<close>

text \<open>
  The \<^verbatim>\<open>while (size > 0)\<close> loop of \<^verbatim>\<open>inode_write_at\<close>.  \<open>buffer\<close> is the caller's
  buffer; the bytes at \<^verbatim>\<open>buffer + bytes_written\<close> are
  \<open>drop (nat bytes_written) buffer\<close>.
\<close>

function write_loop ::
  "fat_params \<Rightarrow> inode \<Rightarrow> kstate \<Rightarrow> byte list \<Rightarrow> off_t \<Rightarrow> off_t \<Rightarrow> off_t \<Rightarrow> nat option
     \<Rightarrow> off_t \<times> nat option \<times> kstate"
where
  "write_loop P ino st buffer sz offset bytes_written bounce =
     (if sz > 0 then
        let sector_idx = byte_to_sector P st ino offset;
            sector_ofs = c_mod offset DISK_SECTOR_SIZE;
            inode_left = inode_length ino - offset;
            sector_left = DISK_SECTOR_SIZE - sector_ofs;
            min_left = (if inode_left < sector_left then inode_left else sector_left);
            chunk_size = (if sz < min_left then sz else min_left)
        in if chunk_size \<le> 0 then (bytes_written, bounce, st)
           else if sector_ofs = 0 \<and> chunk_size = DISK_SECTOR_SIZE then
             write_loop P ino
               (disk_write st sector_idx (take 512 (drop (nat bytes_written) buffer)))
               buffer (sz - chunk_size) (offset + chunk_size)
               (bytes_written + chunk_size) bounce
           else
             (case (if bounce = None then malloc st else (bounce, st)) of
                (None, st1) \<Rightarrow> (bytes_written, None, st1)
              | (Some b, st1) \<Rightarrow>
                  (case (if sector_ofs > 0 \<or> chunk_size < sector_left
                         then disk_read st1 sector_idx else (zeros, st1)) of
                     (bs, st2) \<Rightarrow>
                       write_loop P ino
                         (disk_write st2 sector_idx
                            (take (nat sector_ofs) bs
                               @ take (nat chunk_size) (drop (nat bytes_written) buffer)
                               @ drop (nat sector_ofs + nat chunk_size) bs))
                         buffer (sz - chunk_size) (offset + chunk_size)
                         (bytes_written + chunk_size) (Some b)))
      else (bytes_written, bounce, st))"
  by pat_completeness auto
termination
  by (relation "measure (\<lambda>(P, ino, st, buffer, sz, offset, bytes_written, bounce). nat sz)")
     (auto split: if_splits)

declare write_loop.simps [simp del]

definition inode_write_at ::
  "fat_params \<Rightarrow> kstate \<Rightarrow> nat option \<Rightarrow> byte list \<Rightarrow> off_t \<Rightarrow> off_t \<Rightarrow> error + (off_t \<times> kstate)"
where
  "inode_write_at P st p buffer sz offset =
     (case p of
        None \<Rightarrow> Inl BadPointer
      | Some a \<Rightarrow>
          (case heap st a of
             None \<Rightarrow> Inl BadPointer
           | Some ino0 \<Rightarrow>
               if deny_write_cnt ino0 \<noteq> 0 then Inr (0, st)
               else
                 (case (if off_add offset sz > inode_length ino0
                        then file_growth P st ino0 (off_add offset sz)
                        else (True, st, ino0)) of
                    (grown, st1, ino) \<Rightarrow>
                      (case write_loop P ino st1 buffer sz offset 0 None of
                         (bytes_written, bounce, st2) \<Rightarrow>
                           Inr (bytes_written,
                                (free st2 bounce)\<lparr>heap := (heap st2)(a \<mapsto> ino)\<rparr>)))))"

section \<open>Specification-side notions\<close>

text \<open>
  The translation as the specification words it: the unit index is the offset divided by
  the size of an allocation unit, the unit is reached by that many follow-next steps from
  the chain head, and the sector is the unit's base sector plus the sector index inside
  the unit.
\<close>

definition translate :: "fat_params \<Rightarrow> kstate \<Rightarrow> inode \<Rightarrow> off_t \<Rightarrow> disk_sector_t" where
  "translate P st ino logical_offset =
     (let unit_index = logical_offset div (DISK_SECTOR_SIZE * int (SECTORS_PER_CLUSTER P));
          unit = (fat_get st ^^ nat unit_index) (sector_to_cluster P (start (data ino)));
          intra_unit_offset =
            logical_offset - unit_index * int (SECTORS_PER_CLUSTER P) * DISK_SECTOR_SIZE
      in cluster_to_sector P unit + nat (intra_unit_offset div DISK_SECTOR_SIZE))"

text \<open>The counter invariant of an in-memory inode.\<close>

definition counts_ok :: "inode \<Rightarrow> bool" where
  "counts_ok ino = (0 \<le> deny_write_cnt ino \<and> deny_write_cnt ino \<le> open_cnt ino)"

section \<open>A concrete file system\<close>

text \<open>One sector per allocation unit; unit \<open>c\<close> lives in sector \<open>c + 100\<close>.  The inode
  record in sector 101 describes a file of 600 bytes in the units 2 and 3.\<close>

definition P1 :: fat_params where
  "P1 = \<lparr>SECTORS_PER_CLUSTER = 1, cluster_to_sector = (\<lambda>c. c + 100),
         sector_to_cluster = (\<lambda>s. s - 100)\<rparr>"

definition ex_data :: inode_disk where
  "ex_data = \<lparr>start = 102, length_d = 600, magic = INODE_MAGIC, unused = replicate 500 0\<rparr>"

definition ex_inode :: inode where
  "ex_inode = \<lparr>sector = 101, open_cnt = 1, removed = False, deny_write_cnt = 0, data = ex_data\<rparr>"

definition ex_state :: kstate where
  "ex_state =
     \<lparr>disk = (\<lambda>s. zeros),
      fat = (\<lambda>c. 0)(1 := EOChain, 2 := 3, 3 := EOChain),
      fat_free = [4, 5],
      fat_len = 16,
      heap = [1000 \<mapsto> ex_inode],
      open_inodes = [1000],
      mem_free = [2000, 3000],
      trace = []\<rparr>"

text \<open>The same inode held by two openers who both deny writes.\<close>

definition ex_denied :: kstate where
  "ex_denied = ex_state\<lparr>heap := [1000 \<mapsto> ex_inode\<lparr>open_cnt := 2, deny_write_cnt := 2\<rparr>]\<rparr>"

text \<open>The example inode after \<^verbatim>\<open>inode_remove\<close>.\<close>

definition ex_removed :: kstate where
  "ex_removed = ex_state\<lparr>heap := [1000 \<mapsto> ex_inode\<lparr>removed := True\<rparr>]\<rparr>"

text \<open>The in-memory inode that a first \<^verbatim>\<open>inode_open\<close> of sector \<open>sec\<close> builds.\<close>

definition fresh_inode :: "kstate \<Rightarrow> disk_sector_t \<Rightarrow> inode" where
  "fresh_inode st sec =
     \<lparr>sector = sec, open_cnt = 1, removed = False, deny_write_cnt = 0,
      data = decode_inode (disk st sec)\<rparr>"

section \<open>Auxiliary notions for the loops\<close>

text \<open>The chunk size computed at the head of each iteration of the read and write loops.\<close>

definition chunk_size_of :: "inode \<Rightarrow> off_t \<Rightarrow> off_t \<Rightarrow> off_t" where
  "chunk_size_of ino sz offset =
     (let sector_ofs = c_mod offset DISK_SECTOR_SIZE;
          inode_left = inode_length ino - offset;
          sector_left = DISK_SECTOR_SIZE - sector_ofs;
          min_left = (if inode_left < sector_left then inode_left else sector_left)
      in if sz < min_left then sz else min_left)"

text \<open>The example state with no kernel memory left.\<close>

definition ex_nomem :: kstate where
  "ex_nomem = ex_state\<lparr>mem_free := []\<rparr>"

text \<open>The sector image that a partial chunk stores.\<close>

definition partial_sector ::
  "kstate \<Rightarrow> disk_sector_t \<Rightarrow> byte list \<Rightarrow> off_t \<Rightarrow> off_t \<Rightarrow> off_t \<Rightarrow> byte list" where
  "partial_sector st sec buffer bytes_written sector_ofs chunk_size =
     (let bs = (if sector_ofs > 0 \<or> chunk_size < 512 - sector_ofs then disk st sec else zeros)
      in take (nat sector_ofs) bs
           @ take (nat chunk_size) (drop (nat bytes_written) buffer)
           @ drop (nat sector_ofs + nat chunk_size) bs)"

text \<open>The state after the read that precedes the store of a partial chunk, when there is one.\<close>

definition partial_state :: "kstate \<Rightarrow> disk_sector_t \<Rightarrow> off_t \<Rightarrow> off_t \<Rightarrow> kstate" where
  "partial_state st sec sector_ofs chunk_size =
     (if sector_ofs > 0 \<or> chunk_size < 512 - sector_ofs
      then st\<lparr>trace := trace st @ [DiskRead sec]\<rparr> else st)"

section \<open>Auxiliary notions for creation and growth\<close>

text \<open>The calls that allocate and zero-fill the units \<open>cs\<close> one after the other, each
  appended to the previous one (\<open>prev\<close>, 0 for a new chain).\<close>

fun alloc_events :: "fat_params \<Rightarrow> cluster_t \<Rightarrow> cluster_t list \<Rightarrow> event list" where
  "alloc_events P prev [] = []"
| "alloc_events P prev (c # cs) =
     FatCreateChain prev # DiskWrite (cluster_to_sector P c) zeros # alloc_events P c cs"

text \<open>The table after the units \<open>cs\<close> have been appended one after the other.\<close>

fun link_chain ::
  "(cluster_t \<Rightarrow> cluster_t) \<Rightarrow> cluster_t \<Rightarrow> cluster_t list \<Rightarrow> cluster_t \<Rightarrow> cluster_t" where
  "link_chain nxt prev [] = nxt"
| "link_chain nxt prev (c # cs) =
     link_chain (if prev = 0 then nxt(c := EOChain) else nxt(c := EOChain, prev := c)) c cs"

text \<open>The number of units \<^verbatim>\<open>inode_create\<close> asks for.\<close>

definition units_created :: "off_t \<Rightarrow> nat" where
  "units_created len = (if len < 0 then 0 else nat (len div 512) + 1)"

text \<open>The record \<^verbatim>\<open>inode_create\<close> stores for a file of \<open>len\<close> bytes whose chain is
  \<open>cs\<close>.\<close>

definition created_record :: "fat_params \<Rightarrow> off_t \<Rightarrow> cluster_t list \<Rightarrow> inode_disk" where
  "created_record P len cs =
     \<lparr>start = cluster_to_sector P (hd cs), length_d = len, magic = INODE_MAGIC,
      unused = replicate 500 0\<rparr>"

text \<open>A file of 100 bytes in the single unit 2, and an exhausted allocator.\<close>

definition ex_small :: inode where
  "ex_small = ex_inode\<lparr>data := ex_data\<lparr>length_d := 100\<rparr>\<rparr>"

definition ex_full :: kstate where
  "ex_full = ex_state\<lparr>fat := (\<lambda>c. 0)(1 := EOChain, 2 := EOChain), fat_free := [],
                      heap := [1000 \<mapsto> ex_small]\<rparr>"

section \<open>Auxiliary notions for the round trip\<close>

text \<open>Sector \<open>d\<close> holds the \<open>i\<close>-th sector-sized piece of the byte sequence \<open>S\<close> of a
  file of \<open>L\<close> bytes: the whole sector, or the leading bytes of the last, partial one.\<close>

definition chunk_ok :: "off_t \<Rightarrow> byte list \<Rightarrow> nat \<Rightarrow> byte list \<Rightarrow> bool" where
  "chunk_ok L S i d =
     (if L - 512 * int i \<ge> 512 then d = take 512 (drop (512 * i) S)
      else take (nat (L - 512 * int i)) d = drop (512 * i) S)"

text \<open>
  What the round trip needs from the chain allocator and the address conversions for the
  units \<open>cs\<close> it grants: a unit spans at least one sector, the units are pairwise
  different and their sector ranges are disjoint and lie below the sentinel, and
  \<^verbatim>\<open>sector_to_cluster\<close> inverts \<^verbatim>\<open>cluster_to_sector\<close> on the first unit.
\<close>

definition units_ok :: "fat_params \<Rightarrow> cluster_t list \<Rightarrow> bool" where
  "units_ok P cs =
     (0 < SECTORS_PER_CLUSTER P \<and> distinct cs
      \<and> sector_to_cluster P (cluster_to_sector P (hd cs)) = hd cs
      \<and> (\<forall>c\<in>set cs. cluster_to_sector P c + SECTORS_PER_CLUSTER P \<le> SECTOR_NONE)
      \<and> (\<forall>c\<in>set cs. \<forall>d\<in>set cs. c = d
            \<or> cluster_to_sector P c + SECTORS_PER_CLUSTER P \<le> cluster_to_sector P d
            \<or> cluster_to_sector P d + SECTORS_PER_CLUSTER P \<le> cluster_to_sector P c))"

text \<open>The sector of the \<open>i\<close>-th sector-sized piece of a file whose chain is \<open>cs\<close>.\<close>

definition file_sector :: "fat_params \<Rightarrow> cluster_t list \<Rightarrow> nat \<Rightarrow> disk_sector_t" where
  "file_sector P cs i =
     cluster_to_sector P (cs ! (i div SECTORS_PER_CLUSTER P)) + i mod SECTORS_PER_CLUSTER P"

section \<open>Arithmetic of C division\<close>

lemma c_div_nonneg: "0 \<le> a \<Longrightarrow> 0 < b \<Longrightarrow> c_div a b = a div b"
  by (simp add: c_div_def sgn_if)

lemma c_mod_nonneg: "0 \<le> a \<Longrightarrow> 0 < b \<Longrightarrow> c_mod a b = a mod b"
  by (simp add: c_mod_def c_div_nonneg minus_mult_div_eq_mod)

section \<open>Offset translation refines the specified algorithm\<close>

lemma follow_funpow: "follow st n c = (fat_get st ^^ n) c"
  by (induction n arbitrary: c) (simp_all add: funpow_swap1)

lemma byte_to_sector_inside:
  assumes "0 \<le> pos" and "0 < SECTORS_PER_CLUSTER P" and "pos \<le> length_d (data ino)"
    and "translate P st ino pos < SECTOR_NONE"
  shows "byte_to_sector P st ino pos = translate P st ino pos"
proof -
  define s where "s = int (SECTORS_PER_CLUSTER P)"
  define n where "n = pos div (512 * s)"
  define r where "r = pos - n * s * 512"
  define u where
    "u = cluster_to_sector P ((fat_get st ^^ nat n) (sector_to_cluster P (start (data ino))))"
  have s: "0 < s" using assms by (simp add: s_def)
  have d: "c_div (c_div pos 512) s = n"
    using assms s by (simp add: n_def c_div_nonneg pos_imp_zdiv_nonneg_iff zdiv_zmult2_eq)
  have "r = pos mod (512 * s)"
    unfolding r_def n_def
    using minus_div_mult_eq_mod [of pos "512 * s"] by (simp add: mult.assoc mult.commute)
  then have nn: "0 \<le> r" using s by simp
  have t: "translate P st ino pos = u + nat (r div 512)"
    by (simp add: translate_def Let_def DISK_SECTOR_SIZE_def s_def n_def r_def u_def)
  have b: "byte_to_sector P st ino pos = to_sector (int u + c_div r 512)"
    using assms(3) d
    by (simp add: byte_to_sector_def Let_def DISK_SECTOR_SIZE_def follow_funpow
        s_def [symmetric] r_def u_def)
  have "int u + r div 512 = int (u + nat (r div 512))"
    using nn by (simp add: pos_imp_zdiv_nonneg_iff)
  moreover have "u + nat (r div 512) < 4294967295"
    using assms(4) t by (simp add: SECTOR_NONE_def)
  ultimately have "to_sector (int u + r div 512) = u + nat (r div 512)"
    by (simp add: to_sector_def del: of_nat_add)
  then show ?thesis using b t nn by (simp add: c_div_nonneg)
qed

text \<open>
  Claim C6.  For every inode and every offset \<open>0 \<le> logical_offset\<close>,
  \<^verbatim>\<open>byte_to_sector\<close> answers the sentinel exactly when the offset is greater than the
  length; otherwise it answers the sector the specified algorithm computes: the unit
  reached from the chain head at \<open>start\<close> by \<open>logical_offset / (sector size * sectors per
  unit)\<close> follow-next steps, plus the sector index inside that unit.  Sector numbers are
  32-bit values below the sentinel.
\<close>

theorem byte_to_sector_translate:
  assumes "0 \<le> logical_offset" and "0 < SECTORS_PER_CLUSTER P"
    and "translate P st ino logical_offset < SECTOR_NONE"
  shows "byte_to_sector P st ino logical_offset =
           (if logical_offset > length_d (data ino) then SECTOR_NONE
            else translate P st ino logical_offset)
         \<and> (byte_to_sector P st ino logical_offset = SECTOR_NONE
              \<longleftrightarrow> logical_offset > length_d (data ino))"
proof (cases "logical_offset > length_d (data ino)")
  case True
  then show ?thesis by (simp add: byte_to_sector_def)
next
  case False
  then have "byte_to_sector P st ino logical_offset = translate P st ino logical_offset"
    using assms by (simp add: byte_to_sector_inside)
  then show ?thesis using False assms(3) by simp
qed

theorem byte_to_sector_translate_witness:
  "byte_to_sector P1 ex_state ex_inode 600 = 103
   \<and> byte_to_sector P1 ex_state ex_inode 601 = SECTOR_NONE"
  using byte_to_sector_translate [of 600 P1 ex_state ex_inode]
        byte_to_sector_translate [of 601 P1 ex_state ex_inode]
  by (simp add: P1_def ex_state_def ex_inode_def ex_data_def translate_def
      DISK_SECTOR_SIZE_def SECTOR_NONE_def fat_get_def EOChain_def)

section \<open>The open and write-denial counters\<close>

text \<open>
  Claim C9, as the code has it.  On an inode whose counters satisfy
  \<open>0 \<le> deny_write_cnt \<le> open_cnt\<close>: \<^verbatim>\<open>inode_deny_write\<close> fails its assertion when the
  incremented counter would exceed \<open>open_cnt\<close> and otherwise keeps the invariant;
  \<^verbatim>\<open>inode_allow_write\<close> fails its assertion when the counter is 0 and otherwise keeps
  the invariant; \<^verbatim>\<open>inode_close\<close> asserts nothing: a close that is not the last one
  only decrements \<open>open_cnt\<close>, so it keeps the invariant exactly when
  \<open>deny_write_cnt < open_cnt\<close> held before the call.
\<close>

theorem deny_allow_close_counts:
  assumes "heap st a = Some ino" and "counts_ok ino"
  shows "inode_deny_write st (Some a) =
           (if deny_write_cnt ino + 1 \<le> open_cnt ino
            then Inr (st\<lparr>heap := (heap st)(a \<mapsto> ino\<lparr>deny_write_cnt := deny_write_cnt ino + 1\<rparr>)\<rparr>)
            else Inl AssertionFailed)
       \<and> (deny_write_cnt ino + 1 \<le> open_cnt ino
            \<longrightarrow> counts_ok (ino\<lparr>deny_write_cnt := deny_write_cnt ino + 1\<rparr>))
       \<and> inode_allow_write st (Some a) =
           (if deny_write_cnt ino = 0 then Inl AssertionFailed
            else Inr (st\<lparr>heap := (heap st)(a \<mapsto> ino\<lparr>deny_write_cnt := deny_write_cnt ino - 1\<rparr>)\<rparr>))
       \<and> (deny_write_cnt ino \<noteq> 0
            \<longrightarrow> counts_ok (ino\<lparr>deny_write_cnt := deny_write_cnt ino - 1\<rparr>))
       \<and> (open_cnt ino \<noteq> 1 \<longrightarrow>
            inode_close P st (Some a)
              = Inr (st\<lparr>heap := (heap st)(a \<mapsto> ino\<lparr>open_cnt := open_cnt ino - 1\<rparr>)\<rparr>)
            \<and> (counts_ok (ino\<lparr>open_cnt := open_cnt ino - 1\<rparr>)
                 \<longleftrightarrow> deny_write_cnt ino < open_cnt ino))
       \<and> inode_close P st (Some a) \<noteq> Inl AssertionFailed"
  using assms
  by (auto simp: inode_deny_write_def inode_allow_write_def inode_close_def counts_ok_def Let_def)

theorem deny_allow_close_counts_witness:
  "inode_deny_write ex_denied (Some 1000) = Inl AssertionFailed
   \<and> inode_allow_write ex_state (Some 1000) = Inl AssertionFailed
   \<and> inode_allow_write ex_denied (Some 1000)
       = Inr (ex_denied\<lparr>heap := [1000 \<mapsto> ex_inode\<lparr>open_cnt := 2, deny_write_cnt := 1\<rparr>]\<rparr>)
   \<and> counts_ok (ex_inode\<lparr>open_cnt := 2, deny_write_cnt := 1\<rparr>)"
  using deny_allow_close_counts [of ex_denied 1000 "ex_inode\<lparr>open_cnt := 2, deny_write_cnt := 2\<rparr>" P1]
        deny_allow_close_counts [of ex_state 1000 ex_inode P1]
  by (simp add: ex_denied_def ex_state_def ex_inode_def counts_ok_def)

text \<open>With two openers who both deny writes, a close returns normally and leaves
  \<open>deny_write_cnt = 2 > open_cnt = 1\<close>.\<close>

theorem inode_close_breaks_counts:
  "counts_ok (ex_inode\<lparr>open_cnt := 2, deny_write_cnt := 2\<rparr>)
   \<and> inode_close P1 ex_denied (Some 1000)
       = Inr (ex_denied\<lparr>heap := [1000 \<mapsto> ex_inode\<lparr>open_cnt := 1, deny_write_cnt := 2\<rparr>]\<rparr>)
   \<and> \<not> counts_ok (ex_inode\<lparr>open_cnt := 1, deny_write_cnt := 2\<rparr>)"
  by (simp add: inode_close_def ex_denied_def ex_state_def ex_inode_def counts_ok_def Let_def)

section \<open>Closing\<close>

text \<open>
  Claim C2, as the code has it.  Closing a null handle changes nothing.  Closing a handle
  decrements \<open>open_cnt\<close>; when it reaches zero the inode is taken out of the open-inode
  list, its record is written to its sector, and, when \<open>removed\<close> is set, the record's
  own sector is released through the chain allocator first and the data chain headed at
  \<open>start\<close> second; then the in-memory instance is freed.
\<close>

theorem inode_close_effects:
  assumes "heap st a = Some ino" and "distinct (open_inodes st)"
  shows "inode_close P st None = Inr st
    \<and> (open_cnt ino \<noteq> 1 \<longrightarrow>
           inode_close P st (Some a)
             = Inr (st\<lparr>heap := (heap st)(a \<mapsto> ino\<lparr>open_cnt := open_cnt ino - 1\<rparr>)\<rparr>))
    \<and> (open_cnt ino = 1 \<longrightarrow>
           (\<exists>st'. inode_close P st (Some a) = Inr st'
             \<and> a \<notin> set (open_inodes st')
             \<and> open_inodes st' = remove1 a (open_inodes st)
             \<and> heap st' = (heap st)(a := None)
             \<and> mem_free st' = a # mem_free st
             \<and> disk st' = (disk st)(sector ino := encode_inode (data ino))
             \<and> trace st' = trace st @ DiskWrite (sector ino) (encode_inode (data ino))
                 # (if removed ino
                    then [FatRemoveChain (sector_to_cluster P (sector ino)) 0,
                          FatRemoveChain (sector_to_cluster P (start (data ino))) 0]
                    else [])))"
  using assms
  by (auto simp: inode_close_def Let_def disk_write_def fat_remove_chain_def free_def)

theorem inode_close_effects_witness:
  "trace (projr (inode_close P1 ex_removed (Some 1000)))
     = [DiskWrite 101 (encode_inode ex_data), FatRemoveChain 1 0, FatRemoveChain 2 0]
   \<and> heap (projr (inode_close P1 ex_removed (Some 1000))) 1000 = None
   \<and> inode_close P1 ex_denied (Some 1000)
       = Inr (ex_denied\<lparr>heap := [1000 \<mapsto> ex_inode\<lparr>open_cnt := 1, deny_write_cnt := 2\<rparr>]\<rparr>)"
  using inode_close_effects [of ex_removed 1000 "ex_inode\<lparr>removed := True\<rparr>" P1]
        inode_close_effects [of ex_denied 1000 "ex_inode\<lparr>open_cnt := 2, deny_write_cnt := 2\<rparr>" P1]
  by (auto simp: ex_removed_def ex_denied_def ex_state_def ex_inode_def ex_data_def P1_def)

text \<open>On a removed inode whose record is in unit 1 and whose data chain starts at unit 2,
  the last close releases unit 1 before unit 2.\<close>

theorem inode_close_releases_record_first:
  "trace (projr (inode_close P1 ex_removed (Some 1000)))
     = [DiskWrite 101 (encode_inode ex_data),
        FatRemoveChain (sector_to_cluster P1 (sector ex_inode)) 0,
        FatRemoveChain (sector_to_cluster P1 (start (data ex_inode))) 0]
   \<and> sector_to_cluster P1 (sector ex_inode) \<noteq> sector_to_cluster P1 (start (data ex_inode))"
  by (simp add: inode_close_def Let_def disk_write_def fat_remove_chain_def free_def
      ex_removed_def ex_state_def ex_inode_def ex_data_def P1_def)

section \<open>Opening\<close>

lemma inode_close_last:
  assumes "heap st a = Some ino" and "open_cnt ino = 1"
  shows "\<exists>st'. inode_close P st (Some a) = Inr st'
             \<and> open_inodes st' = remove1 a (open_inodes st)
             \<and> heap st' = (heap st)(a := None)
             \<and> mem_free st' = a # mem_free st
             \<and> disk st' = (disk st)(sector ino := encode_inode (data ino))
             \<and> trace st' = trace st @ DiskWrite (sector ino) (encode_inode (data ino))
                 # (if removed ino
                    then [FatRemoveChain (sector_to_cluster P (sector ino)) 0,
                          FatRemoveChain (sector_to_cluster P (start (data ino))) 0]
                    else [])"
  using assms
  by (simp add: inode_close_def Let_def disk_write_def fat_remove_chain_def free_def)

lemma inode_close_not_last:
  assumes "heap st a = Some ino" and "open_cnt ino \<noteq> 1"
  shows "inode_close P st (Some a)
           = Inr (st\<lparr>heap := (heap st)(a \<mapsto> ino\<lparr>open_cnt := open_cnt ino - 1\<rparr>)\<rparr>)"
  using assms by (simp add: inode_close_def Let_def)



lemma find_registered:
  assumes "a \<in> set xs" and "heap st a = Some ino" and "sector ino = sec"
    and "\<forall>b\<in>set xs. \<forall>i. heap st b = Some i \<and> sector i = sec \<longrightarrow> b = a"
  shows "find (\<lambda>a. case heap st a of None \<Rightarrow> False | Some i \<Rightarrow> sector i = sec) xs = Some a"
  using assms(1,4)
proof (induction xs)
  case Nil
  then show ?case by simp
next
  case (Cons x xs)
  show ?case
  proof (cases "x = a")
    case True
    then show ?thesis using assms(2,3) by simp
  next
    case False
    then have "a \<in> set xs" using Cons.prems(1) by simp
    moreover have "\<forall>b\<in>set xs. \<forall>i. heap st b = Some i \<and> sector i = sec \<longrightarrow> b = a"
      using Cons.prems(2) by simp
    ultimately have IH: "find (\<lambda>a. case heap st a of None \<Rightarrow> False | Some i \<Rightarrow> sector i = sec) xs = Some a"
      by (rule Cons.IH)
    have "\<not> (case heap st x of None \<Rightarrow> False | Some i \<Rightarrow> sector i = sec)"
    proof (cases "heap st x")
      case None
      then show ?thesis by simp
    next
      case (Some i)
      have "sector i \<noteq> sec"
      proof
        assume "sector i = sec"
        with Some Cons.prems(2) have "x = a" by simp
        with False show False by simp
      qed
      with Some show ?thesis by simp
    qed
    with IH show ?thesis by simp
  qed
qed

lemma find_unregistered:
  assumes "\<forall>b\<in>set xs. \<forall>i. heap st b = Some i \<longrightarrow> sector i \<noteq> sec"
  shows "find (\<lambda>a. case heap st a of None \<Rightarrow> False | Some i \<Rightarrow> sector i = sec) xs = None"
  using assms by (induction xs) (auto split: option.splits)

lemma inode_open_registered:
  assumes "a \<in> set (open_inodes st)" "heap st a = Some ino" "sector ino = sec"
    "\<forall>b\<in>set (open_inodes st). \<forall>i. heap st b = Some i \<and> sector i = sec \<longrightarrow> b = a"
  shows "inode_open st sec
           = Inr (Some a, st\<lparr>heap := (heap st)(a \<mapsto> ino\<lparr>open_cnt := open_cnt ino + 1\<rparr>)\<rparr>)"
  using find_registered [OF assms] assms(2)
  by (simp add: inode_open_def inode_reopen_def)

lemma inode_open_fresh:
  assumes "\<forall>b\<in>set (open_inodes st). \<forall>i. heap st b = Some i \<longrightarrow> sector i \<noteq> sec"
    and "mem_free st = a # rest"
  shows "inode_open st sec
           = Inr (Some a, st\<lparr>mem_free := rest, open_inodes := a # open_inodes st,
                              trace := trace st @ [DiskRead sec],
                              heap := (heap st)(a \<mapsto> fresh_inode st sec)\<rparr>)"
  using find_unregistered [OF assms(1)] assms(2)
  by (simp add: inode_open_def malloc_def disk_read_def fresh_inode_def Let_def)

lemma inode_open_no_memory:
  assumes "\<forall>b\<in>set (open_inodes st). \<forall>i. heap st b = Some i \<longrightarrow> sector i \<noteq> sec"
    and "mem_free st = []"
  shows "inode_open st sec = Inr (None, st)"
  using find_unregistered [OF assms(1)] assms(2)
  by (simp add: inode_open_def malloc_def)

text \<open>
  Claim C8.  When an in-memory inode with the given sector is registered in the open-inode
  list, \<^verbatim>\<open>inode_open\<close> answers that instance with \<open>open_cnt\<close> incremented and
  issues no device read (the trace is unchanged).  Otherwise, with memory for a new
  instance, it reads the record from the device, sets \<open>open_cnt = 1\<close>,
  \<open>deny_write_cnt = 0\<close>, \<open>removed = false\<close>, registers the instance and answers it.
  Two opens followed by two closes step \<open>open_cnt\<close> through 1, 2, 1 and then free the
  instance; the record is written to the device only at the second close, and the chains
  are released only there and only if \<^verbatim>\<open>inode_remove\<close> was called in between.
\<close>

theorem inode_open_dedup:
  shows "(a \<in> set (open_inodes st) \<and> heap st a = Some ino \<and> sector ino = sec
           \<and> (\<forall>b\<in>set (open_inodes st). \<forall>i. heap st b = Some i \<and> sector i = sec \<longrightarrow> b = a)
          \<longrightarrow> inode_open st sec
                = Inr (Some a, st\<lparr>heap := (heap st)(a \<mapsto> ino\<lparr>open_cnt := open_cnt ino + 1\<rparr>)\<rparr>))
    \<and> ((\<forall>b\<in>set (open_inodes st). \<forall>i. heap st b = Some i \<longrightarrow> sector i \<noteq> sec)
          \<and> mem_free st = a # rest
          \<longrightarrow> inode_open st sec
                = Inr (Some a, st\<lparr>mem_free := rest, open_inodes := a # open_inodes st,
                                   trace := trace st @ [DiskRead sec],
                                   heap := (heap st)(a \<mapsto> fresh_inode st sec)\<rparr>)
            \<and> (\<exists>s1 s2 s3 s4 s5.
                  inode_open st sec = Inr (Some a, s1)
                  \<and> map_option open_cnt (heap s1 a) = Some 1
                  \<and> inode_open s1 sec = Inr (Some a, s2)
                  \<and> map_option open_cnt (heap s2 a) = Some 2
                  \<and> trace s2 = trace s1
                  \<and> (if rm then inode_remove s2 (Some a) = Inr s3 else s3 = s2)
                  \<and> inode_close P s3 (Some a) = Inr s4
                  \<and> map_option open_cnt (heap s4 a) = Some 1
                  \<and> a \<in> set (open_inodes s4)
                  \<and> trace s4 = trace s1 \<and> disk s4 = disk st
                  \<and> fat s4 = fat st \<and> fat_free s4 = fat_free st
                  \<and> inode_close P s4 (Some a) = Inr s5
                  \<and> heap s5 a = None
                  \<and> trace s5 = trace s1
                      @ DiskWrite sec (encode_inode (decode_inode (disk st sec)))
                      # (if rm
                         then [FatRemoveChain (sector_to_cluster P sec) 0,
                               FatRemoveChain
                                 (sector_to_cluster P (start (decode_inode (disk st sec)))) 0]
                         else [])))"
proof (intro conjI impI)
  assume "a \<in> set (open_inodes st) \<and> heap st a = Some ino \<and> sector ino = sec
           \<and> (\<forall>b\<in>set (open_inodes st). \<forall>i. heap st b = Some i \<and> sector i = sec \<longrightarrow> b = a)"
  then show "inode_open st sec
                = Inr (Some a, st\<lparr>heap := (heap st)(a \<mapsto> ino\<lparr>open_cnt := open_cnt ino + 1\<rparr>)\<rparr>)"
    by (intro inode_open_registered) auto
next
  assume h: "(\<forall>b\<in>set (open_inodes st). \<forall>i. heap st b = Some i \<longrightarrow> sector i \<noteq> sec)
          \<and> mem_free st = a # rest"
  define s1 where "s1 = st\<lparr>mem_free := rest, open_inodes := a # open_inodes st,
                                   trace := trace st @ [DiskRead sec],
                                   heap := (heap st)(a \<mapsto> fresh_inode st sec)\<rparr>"
  define i2 where "i2 = (fresh_inode st sec)\<lparr>open_cnt := 2\<rparr>"
  define s2 where "s2 = s1\<lparr>heap := (heap s1)(a \<mapsto> i2)\<rparr>"
  define i3 where "i3 = (if rm then i2\<lparr>removed := True\<rparr> else i2)"
  define s3 where "s3 = s2\<lparr>heap := (heap s2)(a \<mapsto> i3)\<rparr>"
  define s4 where "s4 = s3\<lparr>heap := (heap s3)(a \<mapsto> i3\<lparr>open_cnt := 1\<rparr>)\<rparr>"
  have o1: "inode_open st sec = Inr (Some a, s1)"
    unfolding s1_def using h by (intro inode_open_fresh) auto
  then show "inode_open st sec
                = Inr (Some a, st\<lparr>mem_free := rest, open_inodes := a # open_inodes st,
                                   trace := trace st @ [DiskRead sec],
                                   heap := (heap st)(a \<mapsto> fresh_inode st sec)\<rparr>)"
    by (simp add: s1_def)
  have o2: "inode_open s1 sec = Inr (Some a, s2)"
    by (simp add: inode_open_def inode_reopen_def s1_def s2_def i2_def fresh_inode_def)
  have r: "(if rm then inode_remove s2 (Some a) = Inr s3 else s3 = s2)"
    by (simp add: inode_remove_def s3_def s2_def i3_def)
  have h3: "heap s3 a = Some i3" by (simp add: s3_def)
  have "open_cnt i3 \<noteq> 1" by (simp add: i3_def i2_def)
  from inode_close_not_last [OF h3 this, of P]
  have c1: "inode_close P s3 (Some a) = Inr s4"
    by (simp add: s4_def s3_def i3_def i2_def)
  have h4: "heap s4 a = Some (i3\<lparr>open_cnt := 1\<rparr>)" by (simp add: s4_def)
  have "open_cnt (i3\<lparr>open_cnt := 1\<rparr>) = 1" by simp
  from inode_close_last [OF h4 this, of P]
  obtain s5 where c2: "inode_close P s4 (Some a) = Inr s5"
    and h5': "heap s5 = (heap s4)(a := None)"
    and t5': "trace s5 = trace s4
                @ DiskWrite (sector (i3\<lparr>open_cnt := 1\<rparr>)) (encode_inode (data (i3\<lparr>open_cnt := 1\<rparr>)))
                 # (if removed (i3\<lparr>open_cnt := 1\<rparr>)
                    then [FatRemoveChain (sector_to_cluster P (sector (i3\<lparr>open_cnt := 1\<rparr>))) 0,
                          FatRemoveChain (sector_to_cluster P (start (data (i3\<lparr>open_cnt := 1\<rparr>)))) 0]
                    else [])"
    by blast
  have h5: "heap s5 a = None" using h5' by simp
  have i3: "sector i3 = sec" "data i3 = decode_inode (disk st sec)" "removed i3 = rm"
    by (simp_all add: i3_def i2_def fresh_inode_def)
  have t4: "trace s4 = trace s1" by (simp add: s4_def s3_def s2_def)
  have t5: "trace s5 = trace s1 @ DiskWrite sec (encode_inode (decode_inode (disk st sec)))
                      # (if rm
                         then [FatRemoveChain (sector_to_cluster P sec) 0,
                               FatRemoveChain
                                 (sector_to_cluster P (start (decode_inode (disk st sec)))) 0]
                         else [])"
    using t5' by (simp add: i3 t4)
  have f1: "map_option open_cnt (heap s1 a) = Some 1" by (simp add: s1_def fresh_inode_def)
  have f2: "map_option open_cnt (heap s2 a) = Some 2" by (simp add: s2_def i2_def)
  have f3: "trace s2 = trace s1" by (simp add: s2_def)
  have f4: "map_option open_cnt (heap s4 a) = Some 1" by (simp add: s4_def)
  have f5: "a \<in> set (open_inodes s4)" by (simp add: s4_def s3_def s2_def s1_def)
  have f6: "disk s4 = disk st" "fat s4 = fat st" "fat_free s4 = fat_free st"
    by (simp_all add: s4_def s3_def s2_def s1_def)
  show "\<exists>s1 s2 s3 s4 s5.
                  inode_open st sec = Inr (Some a, s1)
                  \<and> map_option open_cnt (heap s1 a) = Some 1
                  \<and> inode_open s1 sec = Inr (Some a, s2)
                  \<and> map_option open_cnt (heap s2 a) = Some 2
                  \<and> trace s2 = trace s1
                  \<and> (if rm then inode_remove s2 (Some a) = Inr s3 else s3 = s2)
                  \<and> inode_close P s3 (Some a) = Inr s4
                  \<and> map_option open_cnt (heap s4 a) = Some 1
                  \<and> a \<in> set (open_inodes s4)
                  \<and> trace s4 = trace s1 \<and> disk s4 = disk st
                  \<and> fat s4 = fat st \<and> fat_free s4 = fat_free st
                  \<and> inode_close P s4 (Some a) = Inr s5
                  \<and> heap s5 a = None
                  \<and> trace s5 = trace s1
                      @ DiskWrite sec (encode_inode (decode_inode (disk st sec)))
                      # (if rm
                         then [FatRemoveChain (sector_to_cluster P sec) 0,
                               FatRemoveChain
                                 (sector_to_cluster P (start (decode_inode (disk st sec)))) 0]
                         else [])"
    using o1 o2 r c1 c2 h5 t5 t4 f1 f2 f3 f4 f5 f6 by blast
qed

theorem inode_open_dedup_witness:
  "inode_open ex_state 101
     = Inr (Some 1000, ex_state\<lparr>heap := [1000 \<mapsto> ex_inode\<lparr>open_cnt := 2\<rparr>]\<rparr>)
   \<and> inode_open ex_state 7
     = Inr (Some 2000, ex_state\<lparr>mem_free := [3000], open_inodes := [2000, 1000],
                                trace := [DiskRead 7],
                                heap := [1000 \<mapsto> ex_inode, 2000 \<mapsto> fresh_inode ex_state 7]\<rparr>)"
  using inode_open_dedup [of 1000 ex_state ex_inode 101 "[]" True P1]
        inode_open_dedup [of 2000 ex_state ex_inode 7 "[3000]" True P1]
  by (simp add: ex_state_def ex_inode_def)

section \<open>The read loop\<close>

lemma c_mod_bounds: "0 < b \<Longrightarrow> - b < c_mod a b \<and> c_mod a b < b"
proof (cases "0 \<le> a")
  case True
  assume "0 < b"
  with True show ?thesis
    using pos_mod_sign [of b a] pos_mod_bound [of b a] c_mod_nonneg [of a b] by linarith
next
  case False
  assume b: "0 < b"
  from False b have "c_mod a b = a + b * ((- a) div b)"
    by (simp add: c_mod_def c_div_def sgn_if)
  then have "c_mod a b = - ((- a) mod b)"
    using mult_div_mod_eq [of b "- a"] by linarith
  with b show ?thesis
    using pos_mod_sign [of b "- a"] pos_mod_bound [of b "- a"] by linarith
qed

lemma chunk_size_of_eq:
  "chunk_size_of ino sz offset
     = min sz (min (inode_length ino - offset) (512 - c_mod offset 512))"
  by (simp add: chunk_size_of_def Let_def DISK_SECTOR_SIZE_def min_def)

lemma chunk_size_of_pos:
  "0 < chunk_size_of ino sz offset \<longleftrightarrow> 0 < sz \<and> offset < inode_length ino"
  using c_mod_bounds [of 512 offset] by (auto simp: chunk_size_of_eq)

lemma read_loop_unfold:
  "read_loop P ino st buffer sz offset bytes_read bounce =
     (if sz > 0 then
        if chunk_size_of ino sz offset \<le> 0 then (bytes_read, buffer, bounce, st)
        else if c_mod offset DISK_SECTOR_SIZE = 0
                \<and> chunk_size_of ino sz offset = DISK_SECTOR_SIZE then
          (case disk_read st (byte_to_sector P st ino offset) of
             (bs, st1) \<Rightarrow>
               read_loop P ino st1 (buffer @ bs) (sz - chunk_size_of ino sz offset)
                 (offset + chunk_size_of ino sz offset)
                 (bytes_read + chunk_size_of ino sz offset) bounce)
        else
          (case (if bounce = None then malloc st else (bounce, st)) of
             (None, st1) \<Rightarrow> (bytes_read, buffer, None, st1)
           | (Some b, st1) \<Rightarrow>
               (case disk_read st1 (byte_to_sector P st ino offset) of
                  (bs, st2) \<Rightarrow>
                    read_loop P ino st2
                      (buffer @ take (nat (chunk_size_of ino sz offset))
                                  (drop (nat (c_mod offset DISK_SECTOR_SIZE)) bs))
                      (sz - chunk_size_of ino sz offset)
                      (offset + chunk_size_of ino sz offset)
                      (bytes_read + chunk_size_of ino sz offset) (Some b)))
      else (bytes_read, buffer, bounce, st))"
  by (subst read_loop.simps) (simp only: chunk_size_of_def Let_def)

lemma read_loop_stop:
  assumes "\<not> (0 < sz \<and> offset < inode_length ino)"
  shows "read_loop P ino st buffer sz offset bytes_read bounce = (bytes_read, buffer, bounce, st)"
proof -
  have "\<not> 0 < chunk_size_of ino sz offset" using assms by (simp add: chunk_size_of_pos)
  then show ?thesis
    by (subst read_loop_unfold) simp
qed

lemma read_loop_full:
  assumes "0 < sz" and "offset < inode_length ino"
    and "c_mod offset 512 = 0" and "chunk_size_of ino sz offset = 512"
  shows "read_loop P ino st buffer sz offset bytes_read bounce
           = read_loop P ino (st\<lparr>trace := trace st @ [DiskRead (byte_to_sector P st ino offset)]\<rparr>)
               (buffer @ disk st (byte_to_sector P st ino offset))
               (sz - 512) (offset + 512) (bytes_read + 512) bounce"
  using assms
  by (subst read_loop_unfold) (simp add: DISK_SECTOR_SIZE_def disk_read_def)

lemma read_loop_partial:
  assumes "0 < sz" and "offset < inode_length ino"
    and "\<not> (c_mod offset 512 = 0 \<and> chunk_size_of ino sz offset = 512)"
    and "(if bounce = None then malloc st else (bounce, st)) = (Some b, st1)"
  shows "read_loop P ino st buffer sz offset bytes_read bounce
           = read_loop P ino
               (st1\<lparr>trace := trace st1 @ [DiskRead (byte_to_sector P st ino offset)]\<rparr>)
               (buffer @ take (nat (chunk_size_of ino sz offset))
                  (drop (nat (c_mod offset 512)) (disk st1 (byte_to_sector P st ino offset))))
               (sz - chunk_size_of ino sz offset) (offset + chunk_size_of ino sz offset)
               (bytes_read + chunk_size_of ino sz offset) (Some b)"
proof -
  have pos: "\<not> chunk_size_of ino sz offset \<le> 0"
    using assms(1,2) chunk_size_of_pos [of ino sz offset] by simp
  have np: "\<not> (c_mod offset DISK_SECTOR_SIZE = 0
                \<and> chunk_size_of ino sz offset = DISK_SECTOR_SIZE)"
    using assms(3) by (simp add: DISK_SECTOR_SIZE_def)
  show ?thesis
    apply (subst read_loop_unfold)
    apply (simp only: assms(1) pos np if_True if_False assms(4))
    apply (simp add: disk_read_def DISK_SECTOR_SIZE_def)
    done
qed

lemma read_loop_no_memory:
  assumes "mem_free st = []" and "0 < sz" and "offset < inode_length ino"
    and "\<not> (c_mod offset 512 = 0 \<and> chunk_size_of ino sz offset = 512)"
  shows "read_loop P ino st buffer sz offset bytes_read None = (bytes_read, buffer, None, st)"
proof -
  have pos: "\<not> chunk_size_of ino sz offset \<le> 0"
    using assms(2,3) chunk_size_of_pos [of ino sz offset] by simp
  have np: "\<not> (c_mod offset DISK_SECTOR_SIZE = 0
                \<and> chunk_size_of ino sz offset = DISK_SECTOR_SIZE)"
    using assms(4) by (simp add: DISK_SECTOR_SIZE_def)
  have m: "malloc st = (None, st)" using assms(1) by (simp add: malloc_def)
  show ?thesis
    apply (subst read_loop_unfold)
    apply (simp only: assms(2) pos np if_True if_False)
    apply (simp add: m)
    done
qed

lemma read_loop_partial_none:
  assumes "0 < sz" and "offset < inode_length ino"
    and "\<not> (c_mod offset 512 = 0 \<and> chunk_size_of ino sz offset = 512)"
    and "(if bounce = None then malloc st else (bounce, st)) = (None, st1)"
  shows "read_loop P ino st buffer sz offset bytes_read bounce = (bytes_read, buffer, None, st1)"
proof -
  have pos: "\<not> chunk_size_of ino sz offset \<le> 0"
    using assms(1,2) chunk_size_of_pos [of ino sz offset] by simp
  have np: "\<not> (c_mod offset DISK_SECTOR_SIZE = 0
                \<and> chunk_size_of ino sz offset = DISK_SECTOR_SIZE)"
    using assms(3) by (simp add: DISK_SECTOR_SIZE_def)
  show ?thesis
    apply (subst read_loop_unfold)
    apply (simp only: assms(1) pos np if_True if_False assms(4))
    apply simp
    done
qed

lemma malloc_cases:
  "(if bounce = None then malloc st else (bounce, st)) = (None, st) \<and> bounce = None
      \<and> mem_free st = []
   \<or> (\<exists>b st1. (if bounce = None then malloc st else (bounce, st)) = (Some b, st1)
         \<and> disk st1 = disk st \<and> fat st1 = fat st \<and> heap st1 = heap st)"
proof (cases bounce)
  case None
  then show ?thesis by (cases "mem_free st") (simp_all add: malloc_def)
next
  case (Some b)
  then show ?thesis by simp
qed

lemma read_loop_count:
  "bytes_read \<le> fst (read_loop P ino st buffer sz offset bytes_read bounce)
   \<and> fst (read_loop P ino st buffer sz offset bytes_read bounce)
         \<le> bytes_read + max 0 (min sz (inode_length ino - offset))
   \<and> (bounce \<noteq> None \<or> mem_free st \<noteq> [] \<longrightarrow>
        fst (read_loop P ino st buffer sz offset bytes_read bounce)
          = bytes_read + max 0 (min sz (inode_length ino - offset)))"
proof (induction "nat sz" arbitrary: sz offset bytes_read bounce st buffer rule: less_induct)
  case less
  show ?case
  proof (cases "0 < sz \<and> offset < inode_length ino")
    case False
    then show ?thesis by (auto simp: read_loop_stop)
  next
    case True
    define c where "c = chunk_size_of ino sz offset"
    have cpos: "0 < c" using True by (simp add: c_def chunk_size_of_pos)
    have cle: "c \<le> sz" "c \<le> inode_length ino - offset"
      by (simp_all add: c_def chunk_size_of_eq)
    have dec: "nat (sz - c) < nat sz" using cpos True by simp
    have goal: "bytes_read + c + max 0 (min (sz - c) (inode_length ino - (offset + c)))
                 = bytes_read + max 0 (min sz (inode_length ino - offset))"
      using cpos cle by linarith
    show ?thesis
    proof (cases "c_mod offset 512 = 0 \<and> c = 512")
      case full: True
      then have "read_loop P ino st buffer sz offset bytes_read bounce
           = read_loop P ino (st\<lparr>trace := trace st @ [DiskRead (byte_to_sector P st ino offset)]\<rparr>)
               (buffer @ disk st (byte_to_sector P st ino offset))
               (sz - c) (offset + c) (bytes_read + c) bounce"
        using True by (simp add: read_loop_full c_def)
      moreover define st2 buf2
        where "st2 = st\<lparr>trace := trace st @ [DiskRead (byte_to_sector P st ino offset)]\<rparr>"
          and "buf2 = buffer @ disk st (byte_to_sector P st ino offset)"
      moreover have "bytes_read + c \<le> fst (read_loop P ino st2 buf2 (sz - c) (offset + c) (bytes_read + c) bounce)
         \<and> fst (read_loop P ino st2 buf2 (sz - c) (offset + c) (bytes_read + c) bounce)
             \<le> bytes_read + c + max 0 (min (sz - c) (inode_length ino - (offset + c)))
         \<and> (bounce \<noteq> None \<or> mem_free st2 \<noteq> [] \<longrightarrow>
              fst (read_loop P ino st2 buf2 (sz - c) (offset + c) (bytes_read + c) bounce)
                = bytes_read + c + max 0 (min (sz - c) (inode_length ino - (offset + c))))"
        by (rule less.hyps [OF dec])
      moreover have "mem_free st2 = mem_free st" by (simp add: st2_def)
      ultimately show ?thesis using goal cpos by simp
    next
      case part: False
      from malloc_cases [of bounce st] show ?thesis
      proof (elim disjE conjE exE)
        assume m: "(if bounce = None then malloc st else (bounce, st)) = (None, st)"
          and "bounce = None" "mem_free st = []"
        then show ?thesis
          using True part read_loop_partial_none [OF _ _ _ m, of sz offset ino P buffer bytes_read]
          by (simp add: c_def)
      next
        fix b st1
        assume m: "(if bounce = None then malloc st else (bounce, st)) = (Some b, st1)"
        have "read_loop P ino st buffer sz offset bytes_read bounce
           = read_loop P ino
                    (st1\<lparr>trace := trace st1 @ [DiskRead (byte_to_sector P st ino offset)]\<rparr>)
                    (buffer @ take (nat c)
                       (drop (nat (c_mod offset 512)) (disk st1 (byte_to_sector P st ino offset))))
                    (sz - c) (offset + c) (bytes_read + c) (Some b)"
          using True part read_loop_partial [OF _ _ _ m, of sz offset ino P buffer bytes_read]
          by (simp add: c_def)
        moreover define st2 buf2
          where "st2 = st1\<lparr>trace := trace st1 @ [DiskRead (byte_to_sector P st ino offset)]\<rparr>"
            and "buf2 = buffer @ take (nat c)
                       (drop (nat (c_mod offset 512)) (disk st1 (byte_to_sector P st ino offset)))"
        moreover have "bytes_read + c \<le> fst (read_loop P ino st2 buf2 (sz - c) (offset + c) (bytes_read + c) (Some b))
           \<and> fst (read_loop P ino st2 buf2 (sz - c) (offset + c) (bytes_read + c) (Some b))
               \<le> bytes_read + c + max 0 (min (sz - c) (inode_length ino - (offset + c)))
           \<and> (Some b \<noteq> None \<or> mem_free st2 \<noteq> [] \<longrightarrow>
                fst (read_loop P ino st2 buf2 (sz - c) (offset + c) (bytes_read + c) (Some b))
                  = bytes_read + c + max 0 (min (sz - c) (inode_length ino - (offset + c))))"
          by (rule less.hyps [OF dec])
        ultimately show ?thesis using goal cpos by simp
      qed
    qed
  qed
qed

text \<open>
  Claim C7, as the code has it.  For every inode and every read with \<open>size \<ge> 0\<close> and
  \<open>offset \<ge> 0\<close>, the read transfers no byte at or beyond the length: every iteration
  transfers \<open>min (size left, sector_size - offset mod sector_size, length - offset)\<close>
  bytes and the loop stops when that chunk is \<open>\<le> 0\<close>, so the returned count is at most
  \<open>min (size, max (0, length - offset))\<close>.  It equals that bound whenever the scratch
  buffer can be allocated; when \<^verbatim>\<open>malloc\<close> answers a null pointer at the first
  partial-sector chunk the loop stops there with the count reached so far.
\<close>

theorem inode_read_at_count:
  assumes "heap st a = Some ino" and "0 \<le> sz" and "0 \<le> offset"
  shows "(\<exists>n buffer st'.
           inode_read_at P st (Some a) sz offset = Inr (n, buffer, st')
           \<and> 0 \<le> n \<and> n \<le> min sz (max 0 (inode_length ino - offset))
           \<and> (mem_free st \<noteq> [] \<longrightarrow> n = min sz (max 0 (inode_length ino - offset))))
       \<and> chunk_size_of ino sz offset
           = min sz (min (512 - offset mod 512) (inode_length ino - offset))
       \<and> (chunk_size_of ino sz offset \<le> 0 \<longrightarrow>
            read_loop P ino st buf sz offset bytes_read bounce = (bytes_read, buf, bounce, st))"
proof (intro conjI impI)
  obtain n buffer bounce st1
    where r: "read_loop P ino st [] sz offset 0 None = (n, buffer, bounce, st1)"
    by (cases "read_loop P ino st [] sz offset 0 None") auto
  have e: "max 0 (min sz (inode_length ino - offset)) = min sz (max 0 (inode_length ino - offset))"
    using assms(2) by linarith
  from read_loop_count [of 0 P ino st "[]" sz offset None] r e
  have "0 \<le> n \<and> n \<le> min sz (max 0 (inode_length ino - offset))
           \<and> (mem_free st \<noteq> [] \<longrightarrow> n = min sz (max 0 (inode_length ino - offset)))"
    by simp
  moreover have "inode_read_at P st (Some a) sz offset = Inr (n, buffer, free st1 bounce)"
    using assms(1) r by (simp add: inode_read_at_def)
  ultimately show "\<exists>n buffer st'.
           inode_read_at P st (Some a) sz offset = Inr (n, buffer, st')
           \<and> 0 \<le> n \<and> n \<le> min sz (max 0 (inode_length ino - offset))
           \<and> (mem_free st \<noteq> [] \<longrightarrow> n = min sz (max 0 (inode_length ino - offset)))"
    by blast
next
  show "chunk_size_of ino sz offset
           = min sz (min (512 - offset mod 512) (inode_length ino - offset))"
    using assms(3) by (simp add: chunk_size_of_eq c_mod_nonneg min.commute)
next
  assume "chunk_size_of ino sz offset \<le> 0"
  then have "\<not> (0 < sz \<and> offset < inode_length ino)"
    using chunk_size_of_pos [of ino sz offset] by simp
  then show "read_loop P ino st buf sz offset bytes_read bounce = (bytes_read, buf, bounce, st)"
    by (rule read_loop_stop)
qed

theorem inode_read_at_count_witness:
  "map_sum id fst (inode_read_at P1 ex_state (Some 1000) 1000 100) = Inr 500"
  using inode_read_at_count [of ex_state 1000 ex_inode 1000 100 P1, THEN conjunct1]
  by (auto simp: ex_state_def ex_inode_def ex_data_def inode_length_def)

text \<open>With no memory for the scratch buffer, a read of 10 bytes at offset 0 of a file of
  600 bytes returns 0.\<close>

theorem inode_read_at_short_without_memory:
  "inode_read_at P1 ex_nomem (Some 1000) 10 0 = Inr (0, [], ex_nomem)
   \<and> min 10 (max 0 (inode_length ex_inode - 0)) = 10"
  by (simp add: inode_read_at_def ex_nomem_def ex_state_def read_loop_unfold chunk_size_of_eq
      ex_inode_def ex_data_def inode_length_def c_mod_def c_div_def DISK_SECTOR_SIZE_def
      malloc_def free_def)

section \<open>The write loop\<close>

lemma write_loop_unfold:
  "write_loop P ino st buffer sz offset bytes_written bounce =
     (if sz > 0 then
        if chunk_size_of ino sz offset \<le> 0 then (bytes_written, bounce, st)
        else if c_mod offset DISK_SECTOR_SIZE = 0
                \<and> chunk_size_of ino sz offset = DISK_SECTOR_SIZE then
          write_loop P ino
            (disk_write st (byte_to_sector P st ino offset)
               (take 512 (drop (nat bytes_written) buffer)))
            buffer (sz - chunk_size_of ino sz offset) (offset + chunk_size_of ino sz offset)
            (bytes_written + chunk_size_of ino sz offset) bounce
        else
          (case (if bounce = None then malloc st else (bounce, st)) of
             (None, st1) \<Rightarrow> (bytes_written, None, st1)
           | (Some b, st1) \<Rightarrow>
               (case (if c_mod offset DISK_SECTOR_SIZE > 0
                         \<or> chunk_size_of ino sz offset
                              < DISK_SECTOR_SIZE - c_mod offset DISK_SECTOR_SIZE
                      then disk_read st1 (byte_to_sector P st ino offset) else (zeros, st1)) of
                  (bs, st2) \<Rightarrow>
                    write_loop P ino
                      (disk_write st2 (byte_to_sector P st ino offset)
                         (take (nat (c_mod offset DISK_SECTOR_SIZE)) bs
                            @ take (nat (chunk_size_of ino sz offset))
                                (drop (nat bytes_written) buffer)
                            @ drop (nat (c_mod offset DISK_SECTOR_SIZE)
                                      + nat (chunk_size_of ino sz offset)) bs))
                      buffer (sz - chunk_size_of ino sz offset)
                      (offset + chunk_size_of ino sz offset)
                      (bytes_written + chunk_size_of ino sz offset) (Some b)))
      else (bytes_written, bounce, st))"
  by (subst write_loop.simps) (simp only: chunk_size_of_def Let_def)

lemma write_loop_stop:
  assumes "\<not> (0 < sz \<and> offset < inode_length ino)"
  shows "write_loop P ino st buffer sz offset bytes_written bounce = (bytes_written, bounce, st)"
proof -
  have "\<not> 0 < chunk_size_of ino sz offset" using assms by (simp add: chunk_size_of_pos)
  then show ?thesis
    by (subst write_loop_unfold) simp
qed

lemma write_loop_full:
  assumes "0 < sz" and "offset < inode_length ino"
    and "c_mod offset 512 = 0" and "chunk_size_of ino sz offset = 512"
  shows "write_loop P ino st buffer sz offset bytes_written bounce
           = write_loop P ino
               (disk_write st (byte_to_sector P st ino offset)
                  (take 512 (drop (nat bytes_written) buffer)))
               buffer (sz - 512) (offset + 512) (bytes_written + 512) bounce"
  using assms
  by (subst write_loop_unfold) (simp add: DISK_SECTOR_SIZE_def)

lemma write_loop_partial:
  assumes "0 < sz" and "offset < inode_length ino"
    and "\<not> (c_mod offset 512 = 0 \<and> chunk_size_of ino sz offset = 512)"
    and "(if bounce = None then malloc st else (bounce, st)) = (Some b, st1)"
  shows "write_loop P ino st buffer sz offset bytes_written bounce
           = write_loop P ino
               (disk_write
                  (partial_state st1 (byte_to_sector P st ino offset) (c_mod offset 512)
                     (chunk_size_of ino sz offset))
                  (byte_to_sector P st ino offset)
                  (partial_sector st1 (byte_to_sector P st ino offset) buffer bytes_written
                     (c_mod offset 512) (chunk_size_of ino sz offset)))
               buffer (sz - chunk_size_of ino sz offset) (offset + chunk_size_of ino sz offset)
               (bytes_written + chunk_size_of ino sz offset) (Some b)"
proof -
  have pos: "\<not> chunk_size_of ino sz offset \<le> 0"
    using assms(1,2) chunk_size_of_pos [of ino sz offset] by simp
  have np: "\<not> (c_mod offset DISK_SECTOR_SIZE = 0
                \<and> chunk_size_of ino sz offset = DISK_SECTOR_SIZE)"
    using assms(3) by (simp add: DISK_SECTOR_SIZE_def)
  show ?thesis
    apply (subst write_loop_unfold)
    apply (simp only: assms(1) pos np if_True if_False assms(4))
    apply (simp add: disk_read_def DISK_SECTOR_SIZE_def partial_sector_def partial_state_def Let_def)
    done
qed

lemma write_loop_partial_none:
  assumes "0 < sz" and "offset < inode_length ino"
    and "\<not> (c_mod offset 512 = 0 \<and> chunk_size_of ino sz offset = 512)"
    and "(if bounce = None then malloc st else (bounce, st)) = (None, st1)"
  shows "write_loop P ino st buffer sz offset bytes_written bounce = (bytes_written, None, st1)"
proof -
  have pos: "\<not> chunk_size_of ino sz offset \<le> 0"
    using assms(1,2) chunk_size_of_pos [of ino sz offset] by simp
  have np: "\<not> (c_mod offset DISK_SECTOR_SIZE = 0
                \<and> chunk_size_of ino sz offset = DISK_SECTOR_SIZE)"
    using assms(3) by (simp add: DISK_SECTOR_SIZE_def)
  show ?thesis
    apply (subst write_loop_unfold)
    apply (simp only: assms(1) pos np if_True if_False assms(4))
    apply simp
    done
qed

lemma malloc_mem:
  assumes "(if bounce = None then malloc st else (bounce, st)) = (Some b, st1)"
  shows "disk st1 = disk st \<and> fat st1 = fat st \<and> heap st1 = heap st"
  using assms by (cases bounce; cases "mem_free st") (auto simp: malloc_def)

lemma write_loop_count:
  "bytes_written \<le> fst (write_loop P ino st buffer sz offset bytes_written bounce)
   \<and> fst (write_loop P ino st buffer sz offset bytes_written bounce)
         \<le> bytes_written + max 0 (min sz (inode_length ino - offset))
   \<and> (bounce \<noteq> None \<or> mem_free st \<noteq> [] \<longrightarrow>
        fst (write_loop P ino st buffer sz offset bytes_written bounce)
          = bytes_written + max 0 (min sz (inode_length ino - offset)))"
proof (induction "nat sz" arbitrary: sz offset bytes_written bounce st rule: less_induct)
  case less
  show ?case
  proof (cases "0 < sz \<and> offset < inode_length ino")
    case False
    then show ?thesis by (auto simp: write_loop_stop)
  next
    case True
    define c where "c = chunk_size_of ino sz offset"
    have cpos: "0 < c" using True by (simp add: c_def chunk_size_of_pos)
    have cle: "c \<le> sz" "c \<le> inode_length ino - offset"
      by (simp_all add: c_def chunk_size_of_eq)
    have dec: "nat (sz - c) < nat sz" using cpos True by simp
    have goal: "bytes_written + c + max 0 (min (sz - c) (inode_length ino - (offset + c)))
                 = bytes_written + max 0 (min sz (inode_length ino - offset))"
      using cpos cle by linarith
    show ?thesis
    proof (cases "c_mod offset 512 = 0 \<and> c = 512")
      case full: True
      define st2 where "st2 = disk_write st (byte_to_sector P st ino offset)
                  (take 512 (drop (nat bytes_written) buffer))"
      have "write_loop P ino st buffer sz offset bytes_written bounce
           = write_loop P ino st2 buffer (sz - c) (offset + c) (bytes_written + c) bounce"
        using True full by (simp add: write_loop_full c_def st2_def)
      moreover have "bytes_written + c \<le> fst (write_loop P ino st2 buffer (sz - c) (offset + c) (bytes_written + c) bounce)
         \<and> fst (write_loop P ino st2 buffer (sz - c) (offset + c) (bytes_written + c) bounce)
             \<le> bytes_written + c + max 0 (min (sz - c) (inode_length ino - (offset + c)))
         \<and> (bounce \<noteq> None \<or> mem_free st2 \<noteq> [] \<longrightarrow>
              fst (write_loop P ino st2 buffer (sz - c) (offset + c) (bytes_written + c) bounce)
                = bytes_written + c + max 0 (min (sz - c) (inode_length ino - (offset + c))))"
        by (rule less.hyps [OF dec])
      moreover have "mem_free st2 = mem_free st" by (simp add: st2_def disk_write_def)
      ultimately show ?thesis using goal cpos by simp
    next
      case part: False
      from malloc_cases [of bounce st] show ?thesis
      proof (elim disjE conjE exE)
        assume m: "(if bounce = None then malloc st else (bounce, st)) = (None, st)"
          and "bounce = None" "mem_free st = []"
        then show ?thesis
          using True part write_loop_partial_none [OF _ _ _ m, of sz offset ino P buffer bytes_written]
          by (simp add: c_def)
      next
        fix b st1
        assume m: "(if bounce = None then malloc st else (bounce, st)) = (Some b, st1)"
        define st2 where "st2 = disk_write
                  (partial_state st1 (byte_to_sector P st ino offset) (c_mod offset 512) c)
                  (byte_to_sector P st ino offset)
                  (partial_sector st1 (byte_to_sector P st ino offset) buffer bytes_written
                     (c_mod offset 512) c)"
        have "write_loop P ino st buffer sz offset bytes_written bounce
           = write_loop P ino st2 buffer (sz - c) (offset + c) (bytes_written + c) (Some b)"
          using True part write_loop_partial [OF _ _ _ m, of sz offset ino P buffer bytes_written]
          by (simp add: c_def st2_def)
        moreover have "bytes_written + c \<le> fst (write_loop P ino st2 buffer (sz - c) (offset + c) (bytes_written + c) (Some b))
           \<and> fst (write_loop P ino st2 buffer (sz - c) (offset + c) (bytes_written + c) (Some b))
               \<le> bytes_written + c + max 0 (min (sz - c) (inode_length ino - (offset + c)))
           \<and> (Some b \<noteq> None \<or> mem_free st2 \<noteq> [] \<longrightarrow>
                fst (write_loop P ino st2 buffer (sz - c) (offset + c) (bytes_written + c) (Some b))
                  = bytes_written + c + max 0 (min (sz - c) (inode_length ino - (offset + c))))"
          by (rule less.hyps [OF dec])
        ultimately show ?thesis using goal cpos by simp
      qed
    qed
  qed
qed

section \<open>What growth leaves alone\<close>

lemma fat_create_chain_frame:
  "mem_free (snd (fat_create_chain st c)) = mem_free st
   \<and> heap (snd (fat_create_chain st c)) = heap st
   \<and> open_inodes (snd (fat_create_chain st c)) = open_inodes st
   \<and> disk (snd (fat_create_chain st c)) = disk st"
  by (simp add: fat_create_chain_def split: list.splits)

lemma grow_chain_frame:
  "mem_free (fst (snd (grow_chain P st ino new_length origin_length growth last_clst)))
     = mem_free st
   \<and> heap (fst (snd (grow_chain P st ino new_length origin_length growth last_clst))) = heap st
   \<and> (fst (grow_chain P st ino new_length origin_length growth last_clst)
        \<longrightarrow> snd (snd (grow_chain P st ino new_length origin_length growth last_clst)) = ino)"
proof (induction P st ino new_length origin_length growth last_clst rule: grow_chain.induct)
  case (1 P st ino new_length origin_length growth last_clst)
  show ?case
  proof (cases "growth < new_length - origin_length")
    case False
    then show ?thesis by (subst (1 2 3 4) grow_chain.simps) simp
  next
    case True
    obtain c st1 where f: "fat_create_chain st last_clst = (c, st1)"
      by (cases "fat_create_chain st last_clst") auto
    have fr: "mem_free st1 = mem_free st" "heap st1 = heap st"
      using fat_create_chain_frame [of st last_clst] f by simp_all
    show ?thesis
    proof (cases "c = 0")
      case c0: True
      show ?thesis
        using True f c0 fr
        by (subst (1 2 3 4) grow_chain.simps) simp
    next
      case cn: False
      have e: "grow_chain P st ino new_length origin_length growth last_clst
                 = grow_chain P (disk_write st1 (cluster_to_sector P c) zeros) ino new_length
                     origin_length (growth + DISK_SECTOR_SIZE) c"
        using True f cn by (subst grow_chain.simps) simp
      from "1.IH" [OF True f [symmetric] cn]
      show ?thesis
        unfolding e using fr by (simp add: disk_write_def)
    qed
  qed
qed

lemma file_growth_frame:
  "mem_free (fst (snd (file_growth P st ino new_length))) = mem_free st
   \<and> heap (fst (snd (file_growth P st ino new_length))) = heap st
   \<and> (fst (file_growth P st ino new_length)
        \<longrightarrow> inode_length (snd (snd (file_growth P st ino new_length))) = new_length)"
  using grow_chain_frame
  by (simp add: file_growth_def Let_def inode_length_def)

section \<open>Byte counts of a write\<close>


lemma off_add_le: "- 2147483648 \<le> a + b \<Longrightarrow> off_add a b \<le> a + b"
proof -
  assume "- 2147483648 \<le> a + b"
  then have "0 \<le> a + b + 2147483648" by simp
  then have "(a + b + 2147483648) mod 4294967296 \<le> a + b + 2147483648"
    by (rule zmod_le_nonneg_dividend)
  then show ?thesis by (simp add: off_add_def)
qed

lemma grow_chain_length:
  "0 \<le> growth \<Longrightarrow> origin_length \<le> inode_length ino
   \<Longrightarrow> origin_length
         \<le> inode_length (snd (snd (grow_chain P st ino new_length origin_length growth last_clst)))"
proof (induction P st ino new_length origin_length growth last_clst rule: grow_chain.induct)
  case (1 P st ino new_length origin_length growth last_clst)
  show ?case
  proof (cases "growth < new_length - origin_length")
    case False
    then show ?thesis using "1.prems" by (subst grow_chain.simps) simp
  next
    case True
    obtain c st1 where f: "fat_create_chain st last_clst = (c, st1)"
      by (cases "fat_create_chain st last_clst") auto
    show ?thesis
    proof (cases "c = 0")
      case c0: True
      have "c_mod growth DISK_SECTOR_SIZE < DISK_SECTOR_SIZE"
        using c_mod_bounds [of 512 growth] by (simp add: DISK_SECTOR_SIZE_def)
      then show ?thesis
        using True f c0 "1.prems"(1)
        by (subst grow_chain.simps) (simp add: inode_length_def)
    next
      case cn: False
      have e: "grow_chain P st ino new_length origin_length growth last_clst
                 = grow_chain P (disk_write st1 (cluster_to_sector P c) zeros) ino new_length
                     origin_length (growth + DISK_SECTOR_SIZE) c"
        using True f cn by (subst grow_chain.simps) simp
      have "0 \<le> growth + DISK_SECTOR_SIZE"
        using "1.prems"(1) by (simp add: DISK_SECTOR_SIZE_def)
      from "1.IH" [OF True f [symmetric] cn this "1.prems"(2)]
      show ?thesis unfolding e .
    qed
  qed
qed

lemma file_growth_length:
  assumes "inode_length ino < new_length"
  shows "inode_length ino \<le> inode_length (snd (snd (file_growth P st ino new_length)))"
proof -
  define ino1 where "ino1 = ino\<lparr>data := (data ino)\<lparr>length_d := new_length\<rparr>\<rparr>"
  have l1: "inode_length ino \<le> inode_length ino1"
    using assms by (simp add: ino1_def inode_length_def)
  have "inode_length ino
          \<le> inode_length (snd (snd (grow_chain P st ino1 new_length (inode_length ino) 0
               (sector_to_cluster P (byte_to_sector P st ino (inode_length ino))))))"
    by (rule grow_chain_length [OF _ l1]) simp
  then show ?thesis
    using l1 by (simp add: file_growth_def Let_def ino1_def)
qed

lemma inode_write_at_result:
  assumes "heap st a = Some ino" and "deny_write_cnt ino = 0"
  shows "\<exists>n st' g st1 ino1.
           (if off_add offset sz > inode_length ino
            then file_growth P st ino (off_add offset sz) else (True, st, ino)) = (g, st1, ino1)
           \<and> inode_write_at P st (Some a) buffer sz offset = Inr (n, st')
           \<and> n \<le> max 0 (min sz (inode_length ino1 - offset))
           \<and> (mem_free st \<noteq> [] \<longrightarrow> n = max 0 (min sz (inode_length ino1 - offset)))"
proof -
  obtain g st1 ino1 where
    g: "(if off_add offset sz > inode_length ino
            then file_growth P st ino (off_add offset sz) else (True, st, ino)) = (g, st1, ino1)"
    using prod_cases3 by blast
  obtain n bounce st2 where w: "write_loop P ino1 st1 buffer sz offset 0 None = (n, bounce, st2)"
    using prod_cases3 by blast
  have m: "mem_free st1 = mem_free st"
    using g file_growth_frame [of P st ino "off_add offset sz"] by (auto split: if_splits)
  have "inode_write_at P st (Some a) buffer sz offset
          = Inr (n, (free st2 bounce)\<lparr>heap := (heap st2)(a \<mapsto> ino1)\<rparr>)"
    using assms g w by (simp add: inode_write_at_def)
  moreover have "n \<le> max 0 (min sz (inode_length ino1 - offset))
           \<and> (mem_free st \<noteq> [] \<longrightarrow> n = max 0 (min sz (inode_length ino1 - offset)))"
    using write_loop_count [of 0 P ino1 st1 buffer sz offset None] w m by simp
  ultimately show ?thesis using g by blast
qed




section \<open>Write denial and writes\<close>

text \<open>
  Claim C5.  While \<open>deny_write_cnt > 0\<close>, every write returns 0 at once and leaves the
  whole state, the device included, as it was.  After \<^verbatim>\<open>inode_deny_write\<close> and a
  matching \<^verbatim>\<open>inode_allow_write\<close> the state is the one before the denial, so writes
  behave as before: a write inside the file, with memory for the scratch buffer,
  transfers all its bytes.
\<close>

theorem deny_write_rejects:
  assumes "heap st a = Some ino"
  shows "(deny_write_cnt ino > 0 \<longrightarrow> inode_write_at P st (Some a) buffer sz offset = Inr (0, st))
    \<and> (deny_write_cnt ino = 0 \<and> 1 \<le> open_cnt ino \<longrightarrow>
         (\<exists>st1. inode_deny_write st (Some a) = Inr st1
            \<and> inode_write_at P st1 (Some a) buffer sz offset = Inr (0, st1)
            \<and> inode_allow_write st1 (Some a) = Inr st
            \<and> (0 < sz \<and> offset + sz \<le> inode_length ino \<and> mem_free st \<noteq> [] \<longrightarrow>
                 (\<exists>st'. inode_write_at P st (Some a) buffer sz offset = Inr (sz, st')))))"
proof (intro conjI impI)
  assume "deny_write_cnt ino > 0"
  then show "inode_write_at P st (Some a) buffer sz offset = Inr (0, st)"
    using assms by (simp add: inode_write_at_def)
next
  assume h: "deny_write_cnt ino = 0 \<and> 1 \<le> open_cnt ino"
  define st1 where "st1 = st\<lparr>heap := (heap st)(a \<mapsto> ino\<lparr>deny_write_cnt := 1\<rparr>)\<rparr>"
  have d: "inode_deny_write st (Some a) = Inr st1"
    using assms h by (simp add: inode_deny_write_def st1_def Let_def)
  have w: "inode_write_at P st1 (Some a) buffer sz offset = Inr (0, st1)"
    by (simp add: inode_write_at_def st1_def)
  have "ino\<lparr>deny_write_cnt := 0\<rparr> = ino" using h by simp
  then have "(heap st)(a \<mapsto> ino\<lparr>deny_write_cnt := 0\<rparr>) = heap st"
    using assms by (simp add: fun_upd_idem)
  then have al: "inode_allow_write st1 (Some a) = Inr st"
    using h by (simp add: inode_allow_write_def st1_def)
  have s: "\<exists>st'. inode_write_at P st (Some a) buffer sz offset = Inr (sz, st')"
    if c: "0 < sz \<and> offset + sz \<le> inode_length ino \<and> mem_free st \<noteq> []"
  proof -
    from inode_write_at_result [OF assms, of offset sz P buffer] h c
    obtain n st' g st1 ino1 where
      g: "(if off_add offset sz > inode_length ino
            then file_growth P st ino (off_add offset sz) else (True, st, ino)) = (g, st1, ino1)"
      and w: "inode_write_at P st (Some a) buffer sz offset = Inr (n, st')"
      and n: "n = max 0 (min sz (inode_length ino1 - offset))"
      by blast
    have "inode_length ino \<le> inode_length ino1"
    proof (cases "off_add offset sz > inode_length ino")
      case True
      with g have "ino1 = snd (snd (file_growth P st ino (off_add offset sz)))" by simp
      with True show ?thesis using file_growth_length [of ino "off_add offset sz" P st] by simp
    next
      case False
      with g show ?thesis by simp
    qed
    with n c have "n = sz" by (simp add: min_def max_def)
    with w show ?thesis by simp
  qed
  from d w al s
  show "\<exists>st1. inode_deny_write st (Some a) = Inr st1
            \<and> inode_write_at P st1 (Some a) buffer sz offset = Inr (0, st1)
            \<and> inode_allow_write st1 (Some a) = Inr st
            \<and> (0 < sz \<and> offset + sz \<le> inode_length ino \<and> mem_free st \<noteq> [] \<longrightarrow>
                 (\<exists>st'. inode_write_at P st (Some a) buffer sz offset = Inr (sz, st')))"
    by blast
qed

theorem deny_write_rejects_witness:
  "inode_write_at P1 ex_denied (Some 1000) (replicate 10 1) 10 0 = Inr (0, ex_denied)
   \<and> map_sum id fst (inode_write_at P1 ex_state (Some 1000) (replicate 10 1) 10 0) = Inr 10"
  using deny_write_rejects [of ex_denied 1000 "ex_inode\<lparr>open_cnt := 2, deny_write_cnt := 2\<rparr>" P1
          "replicate 10 1" 10 0]
        deny_write_rejects [of ex_state 1000 ex_inode P1 "replicate 10 1" 10 0]
  by (auto simp: ex_denied_def ex_state_def ex_inode_def ex_data_def inode_length_def)

section \<open>The creation loop\<close>

lemma units_created_step:
  "0 \<le> len \<Longrightarrow> units_created len = Suc (units_created (len - 512))"
proof -
  assume a: "0 \<le> len"
  show ?thesis
  proof (cases "len < 512")
    case True
    with a have "len div 512 = 0" by simp
    with a True show ?thesis by (simp add: units_created_def)
  next
    case False
    then have "(len - 512) div 512 = len div 512 - 1"
      using div_add_self2 [of 512 "len - 512"] by simp
    moreover from False have "1 \<le> len div 512"
      using pos_imp_zdiv_pos_iff [of 512 len] by simp
    ultimately show ?thesis using a False by (simp add: units_created_def)
  qed
qed

lemma create_chain_success:
  assumes "create_chain P st di len prev first = (True, st', di')"
  shows "\<exists>cs. length cs = units_created len \<and> fat_free st = cs @ fat_free st' \<and> 0 \<notin> set cs
     \<and> trace st' = trace st @ alloc_events P prev cs
     \<and> di' = (if first \<and> cs \<noteq> [] then di\<lparr>start := cluster_to_sector P (hd cs)\<rparr> else di)
     \<and> disk st' = (\<lambda>s. if s \<in> cluster_to_sector P ` set cs then zeros else disk st s)
     \<and> mem_free st' = mem_free st \<and> heap st' = heap st \<and> open_inodes st' = open_inodes st
     \<and> fat st' = link_chain (fat st) prev cs"
  using assms
proof (induction P st di len prev first arbitrary: st' di' rule: create_chain.induct)
  case (1 P st di len prev first)
  show ?case
  proof (cases "len \<ge> 0")
    case False
    then have "create_chain P st di len prev first = (True, st, di)"
      by (subst create_chain.simps) simp
    with "1.prems" False show ?thesis
      by (intro exI [of _ "[]"]) (simp add: units_created_def)
  next
    case True
    obtain c st1 where f: "fat_create_chain st prev = (c, st1)"
      by (cases "fat_create_chain st prev") auto
    have c0: "c \<noteq> 0"
    proof
      assume "c = 0"
      with True f have "create_chain P st di len prev first = (False, st1, di)"
        by (subst create_chain.simps) simp
      with "1.prems" show False by simp
    qed
    from f c0 obtain rest where fr: "fat_free st = c # rest"
      by (cases "fat_free st") (auto simp: fat_create_chain_def)
    from f fr have st1: "st1 = st\<lparr>fat := (if prev = 0 then (fat st)(c := EOChain)
                          else (fat st)(c := EOChain, prev := c)),
                 fat_free := rest,
                 trace := trace st @ [FatCreateChain prev]\<rparr>"
      by (simp add: fat_create_chain_def)
    define di1 where "di1 = (if first then di\<lparr>start := cluster_to_sector P c\<rparr> else di)"
    define st2 where "st2 = disk_write st1 (cluster_to_sector P c) zeros"
    have e: "create_chain P st di len prev first
               = create_chain P st2 di1 (len - DISK_SECTOR_SIZE) c False"
      using True f c0 by (subst create_chain.simps) (simp add: di1_def st2_def Let_def)
    with "1.prems" have r: "create_chain P st2 di1 (len - DISK_SECTOR_SIZE) c False = (True, st', di')"
      by simp
    from "1.IH" [OF True f [symmetric] c0 di1_def st2_def r]
    obtain cs where cs: "length cs = units_created (len - DISK_SECTOR_SIZE)"
      "fat_free st2 = cs @ fat_free st'" "0 \<notin> set cs"
      "trace st' = trace st2 @ alloc_events P c cs"
      "di' = di1"
      "disk st' = (\<lambda>s. if s \<in> cluster_to_sector P ` set cs then zeros else disk st2 s)"
      "mem_free st' = mem_free st2" "heap st' = heap st2" "open_inodes st' = open_inodes st2"
      "fat st' = link_chain (fat st2) c cs"
      by auto
    show ?thesis
    proof (intro exI [of _ "c # cs"] conjI)
      show "length (c # cs) = units_created len"
        using cs(1) units_created_step [OF True] by (simp add: DISK_SECTOR_SIZE_def)
      show "fat_free st = (c # cs) @ fat_free st'"
        using cs(2) fr by (simp add: st2_def disk_write_def st1)
      show "0 \<notin> set (c # cs)" using cs(3) c0 by simp
      show "trace st' = trace st @ alloc_events P prev (c # cs)"
        using cs(4) by (simp add: st2_def disk_write_def st1)
      show "di' = (if first \<and> c # cs \<noteq> [] then di\<lparr>start := cluster_to_sector P (hd (c # cs))\<rparr> else di)"
        using cs(5) by (simp add: di1_def)
      show "disk st' = (\<lambda>s. if s \<in> cluster_to_sector P ` set (c # cs) then zeros else disk st s)"
        using cs(6) by (auto simp: st2_def disk_write_def st1 fun_eq_iff)
      show "mem_free st' = mem_free st" using cs(7) by (simp add: st2_def disk_write_def st1)
      show "heap st' = heap st" using cs(8) by (simp add: st2_def disk_write_def st1)
      show "open_inodes st' = open_inodes st" using cs(9) by (simp add: st2_def disk_write_def st1)
      show "fat st' = link_chain (fat st) prev (c # cs)"
        using cs(10) by (simp add: st2_def disk_write_def st1)
    qed
  qed
qed

lemma create_chain_total:
  assumes "fat_free st = cs @ rest" and "length cs = units_created len" and "0 \<notin> set cs"
  shows "fst (create_chain P st di len prev first)"
  using assms
proof (induction cs arbitrary: st di len prev first)
  case Nil
  then have "\<not> len \<ge> 0" by (simp add: units_created_def split: if_splits)
  then show ?case by (subst create_chain.simps) simp
next
  case (Cons c cs)
  have len: "0 \<le> len" using Cons.prems(2) by (simp add: units_created_def split: if_splits)
  have c0: "c \<noteq> 0" using Cons.prems(3) by auto
  define st1 where "st1 = snd (fat_create_chain st prev)"
  have f: "fat_create_chain st prev = (c, st1)" and fr: "fat_free st1 = cs @ rest"
    using Cons.prems(1) by (simp_all add: fat_create_chain_def st1_def)
  define di1 where "di1 = (if first then di\<lparr>start := cluster_to_sector P c\<rparr> else di)"
  define st2 where "st2 = disk_write st1 (cluster_to_sector P c) zeros"
  have e: "create_chain P st di len prev first
             = create_chain P st2 di1 (len - DISK_SECTOR_SIZE) c False"
    using len f c0 by (subst create_chain.simps) (simp add: di1_def st2_def Let_def)
  have "fat_free st2 = cs @ rest" using fr by (simp add: st2_def disk_write_def)
  moreover have "length cs = units_created (len - DISK_SECTOR_SIZE)"
    using Cons.prems(2) units_created_step [OF len] by (simp add: DISK_SECTOR_SIZE_def)
  moreover have "0 \<notin> set cs" using Cons.prems(3) by simp
  ultimately have "fst (create_chain P st2 di1 (len - DISK_SECTOR_SIZE) c False)"
    by (rule Cons.IH)
  with e show ?case by simp
qed

section \<open>Chains built by successive allocations\<close>

lemma link_chain_other:
  "x \<notin> set cs \<Longrightarrow> x \<noteq> prev \<Longrightarrow> link_chain nxt prev cs x = nxt x"
  by (induction cs arbitrary: nxt prev) auto

lemma link_chain_other0:
  "x \<notin> set cs \<Longrightarrow> link_chain nxt 0 cs x = nxt x"
  by (cases cs) (auto simp: link_chain_other)

lemma link_chain_prev:
  assumes "prev \<noteq> 0" and "prev \<notin> set cs"
  shows "link_chain nxt prev cs prev = (case cs of [] \<Rightarrow> nxt prev | c # _ \<Rightarrow> c)"
proof (cases cs)
  case Nil
  then show ?thesis by simp
next
  case (Cons c ds)
  with assms have "prev \<notin> set ds" "prev \<noteq> c" by auto
  then show ?thesis using Cons assms(1) by (simp add: link_chain_other)
qed

lemma link_chain_nth:
  assumes "distinct cs" and "prev \<notin> set cs" and "0 \<notin> set cs" and "i < length cs"
  shows "link_chain nxt prev cs (cs ! i) = (if Suc i < length cs then cs ! Suc i else EOChain)"
  using assms
proof (induction cs arbitrary: nxt prev i)
  case Nil
  then show ?case by simp
next
  case (Cons c cs)
  define nxt' where "nxt' = (if prev = 0 then nxt(c := EOChain) else nxt(c := EOChain, prev := c))"
  have l: "link_chain nxt prev (c # cs) = link_chain nxt' c cs" by (simp add: nxt'_def)
  have c: "c \<noteq> 0" "c \<notin> set cs" "c \<noteq> prev" using Cons.prems by auto
  show ?case
  proof (cases i)
    case 0
    have "link_chain nxt' c cs c = (case cs of [] \<Rightarrow> nxt' c | d # _ \<Rightarrow> d)"
      using c by (intro link_chain_prev) auto
    moreover have "nxt' c = EOChain" using c by (simp add: nxt'_def)
    ultimately show ?thesis using 0 l by (cases cs) simp_all
  next
    case (Suc j)
    have "link_chain nxt' c cs (cs ! j) = (if Suc j < length cs then cs ! Suc j else EOChain)"
      using Cons.prems Suc c by (intro Cons.IH) auto
    then show ?thesis using Suc l by simp
  qed
qed

lemma follow_chain:
  assumes "fat st = link_chain nxt prev cs" and "distinct cs" and "prev \<notin> set cs"
    and "0 \<notin> set cs" and "i + k < length cs"
  shows "follow st k (cs ! i) = cs ! (i + k)"
  using assms(5)
proof (induction k arbitrary: i)
  case 0
  then show ?case by simp
next
  case (Suc k)
  have "fat_get st (cs ! i) = cs ! Suc i"
    using link_chain_nth [OF assms(2,3,4), of i nxt] Suc.prems assms(1)
    by (simp add: fat_get_def)
  moreover have "follow st k (cs ! Suc i) = cs ! (Suc i + k)"
    using Suc.prems by (intro Suc.IH) simp
  ultimately show ?case by simp
qed

section \<open>Creation\<close>

lemma inode_create_success:
  assumes "0 \<le> len" and "inode_create P st sec len = Inr (True, st')"
  shows "\<exists>cs. length cs = units_created len \<and> fat_free st = cs @ fat_free st' \<and> 0 \<notin> set cs
     \<and> trace st' = trace st @ alloc_events P 0 cs
                      @ [DiskWrite sec (encode_inode (created_record P len cs))]
     \<and> disk st' = (\<lambda>s. if s = sec then encode_inode (created_record P len cs)
                         else if s \<in> cluster_to_sector P ` set cs then zeros else disk st s)
     \<and> mem_free st' = mem_free st \<and> heap st' = heap st \<and> open_inodes st' = open_inodes st
     \<and> fat st' = link_chain (fat st) 0 cs"
proof -
  from assms obtain a ms where m: "mem_free st = a # ms"
    by (cases "mem_free st") (auto simp: inode_create_def malloc_def)
  define st0 where "st0 = st\<lparr>mem_free := ms\<rparr>"
  define di0 where "di0 = \<lparr>start = 0, length_d = len, magic = INODE_MAGIC,
                               unused = replicate 500 (0 :: byte)\<rparr>"
  obtain ok st1 di where c: "create_chain P st0 di0 len 0 True = (ok, st1, di)"
    using prod_cases3 by blast
  have ok: "ok" and st': "st' = free (disk_write st1 sec (encode_inode di)) (Some a)"
    using assms m c
    by (auto simp: inode_create_def malloc_def st0_def di0_def Let_def
        split: if_splits bool.splits)
  from create_chain_success [of P st0 di0 len 0 True st1 di] c ok
  obtain cs where cs: "length cs = units_created len" "fat_free st0 = cs @ fat_free st1"
     "0 \<notin> set cs" "trace st1 = trace st0 @ alloc_events P 0 cs"
     "di = (if True \<and> cs \<noteq> [] then di0\<lparr>start := cluster_to_sector P (hd cs)\<rparr> else di0)"
     "disk st1 = (\<lambda>s. if s \<in> cluster_to_sector P ` set cs then zeros else disk st0 s)"
     "mem_free st1 = mem_free st0" "heap st1 = heap st0" "open_inodes st1 = open_inodes st0"
     "fat st1 = link_chain (fat st0) 0 cs"
    by auto
  have ne: "cs \<noteq> []" using cs(1) assms(1) by (auto simp: units_created_def)
  have di: "di = created_record P len cs"
    using cs(5) ne by (simp add: created_record_def di0_def)
  show ?thesis
  proof (intro exI [of _ cs] conjI)
    show "length cs = units_created len" by (rule cs(1))
    show "fat_free st = cs @ fat_free st'"
      using cs(2) by (simp add: st' st0_def free_def disk_write_def)
    show "0 \<notin> set cs" by (rule cs(3))
    show "trace st' = trace st @ alloc_events P 0 cs
                      @ [DiskWrite sec (encode_inode (created_record P len cs))]"
      using cs(4) by (simp add: st' st0_def free_def disk_write_def di)
    show "disk st' = (\<lambda>s. if s = sec then encode_inode (created_record P len cs)
                         else if s \<in> cluster_to_sector P ` set cs then zeros else disk st s)"
      using cs(6) by (auto simp: st' st0_def free_def disk_write_def di fun_eq_iff)
    show "mem_free st' = mem_free st"
      using cs(7) m by (simp add: st' st0_def free_def disk_write_def)
    show "heap st' = heap st" using cs(8) by (simp add: st' st0_def free_def disk_write_def)
    show "open_inodes st' = open_inodes st"
      using cs(9) by (simp add: st' st0_def free_def disk_write_def)
    show "fat st' = link_chain (fat st) 0 cs"
      using cs(10) by (simp add: st' st0_def free_def disk_write_def)
  qed
qed

lemma inode_create_total:
  assumes "0 \<le> len" and "mem_free st \<noteq> []" and "fat_free st = cs @ rest"
    and "length cs = units_created len" and "0 \<notin> set cs"
  shows "\<exists>st'. inode_create P st sec len = Inr (True, st')"
proof -
  from assms(2) obtain a ms where m: "mem_free st = a # ms" by (cases "mem_free st") auto
  define st0 where "st0 = st\<lparr>mem_free := ms\<rparr>"
  define di0 where "di0 = \<lparr>start = 0, length_d = len, magic = INODE_MAGIC,
                               unused = replicate 500 (0 :: byte)\<rparr>"
  have "fat_free st0 = cs @ rest" using assms(3) by (simp add: st0_def)
  from create_chain_total [OF this assms(4,5), of P di0 0 True]
  obtain st1 di where "create_chain P st0 di0 len 0 True = (True, st1, di)"
    by (cases "create_chain P st0 di0 len 0 True") auto
  then show ?thesis
    using assms(1) m by (simp add: inode_create_def malloc_def st0_def di0_def)
qed

lemma slack_index:
  assumes "0 \<le> len" and "0 < (s :: nat)"
  shows "nat (len div (512 * int s)) < units_created len"
proof -
  have "len div (512 * int s) = len div 512 div int s"
    by (simp add: zdiv_zmult2_eq)
  also have "\<dots> \<le> len div 512"
    using zdiv_mono2 [of "len div 512" 1 "int s"] assms
    by (simp add: pos_imp_zdiv_nonneg_iff)
  finally show ?thesis using assms by (simp add: units_created_def)
qed

text \<open>
  Claim C10.  For every length \<open>len \<ge> 0\<close>, a successful \<^verbatim>\<open>inode_create\<close> takes exactly
  \<open>len div 512 + 1\<close> units from the allocator, one after the other, writes a sector of
  zeros to the base sector of each, and only then writes the inode record.  So an empty
  file owns one zero-filled unit, and a length that is a multiple of the sector size gets
  one unit more than its bytes need.  With that slack the walk that translates
  \<open>offset = len\<close> ends on a unit of the chain.  Creation succeeds whenever memory for the
  record and that many units are available.
\<close>

theorem inode_create_units:
  assumes "0 \<le> len"
  shows "(inode_create P st sec len = Inr (True, st') \<longrightarrow>
           (\<exists>cs. length cs = nat (len div 512) + 1
              \<and> fat_free st = cs @ fat_free st' \<and> 0 \<notin> set cs
              \<and> trace st' = trace st @ alloc_events P 0 cs
                      @ [DiskWrite sec (encode_inode (created_record P len cs))]
              \<and> disk st' = (\<lambda>s. if s = sec then encode_inode (created_record P len cs)
                         else if s \<in> cluster_to_sector P ` set cs then zeros else disk st s)
              \<and> (0 < SECTORS_PER_CLUSTER P \<and> distinct cs \<longrightarrow>
                    nat (len div (512 * int (SECTORS_PER_CLUSTER P))) < length cs
                    \<and> follow st' (nat (len div (512 * int (SECTORS_PER_CLUSTER P)))) (hd cs)
                        = cs ! nat (len div (512 * int (SECTORS_PER_CLUSTER P))))))
       \<and> (mem_free st \<noteq> [] \<and> nat (len div 512) + 1 \<le> length (fat_free st)
             \<and> 0 \<notin> set (take (nat (len div 512) + 1) (fat_free st))
           \<longrightarrow> (\<exists>st''. inode_create P st sec len = Inr (True, st'')))"
proof (intro conjI impI)
  assume "inode_create P st sec len = Inr (True, st')"
  from inode_create_success [OF assms this]
  obtain cs where cs: "length cs = units_created len" "fat_free st = cs @ fat_free st'"
     "0 \<notin> set cs"
     "trace st' = trace st @ alloc_events P 0 cs
                      @ [DiskWrite sec (encode_inode (created_record P len cs))]"
     "disk st' = (\<lambda>s. if s = sec then encode_inode (created_record P len cs)
                         else if s \<in> cluster_to_sector P ` set cs then zeros else disk st s)"
     "fat st' = link_chain (fat st) 0 cs"
    by blast
  have n: "length cs = nat (len div 512) + 1" using cs(1) assms by (simp add: units_created_def)
  have slack: "nat (len div (512 * int (SECTORS_PER_CLUSTER P))) < length cs
                    \<and> follow st' (nat (len div (512 * int (SECTORS_PER_CLUSTER P)))) (hd cs)
                        = cs ! nat (len div (512 * int (SECTORS_PER_CLUSTER P)))"
    if h: "0 < SECTORS_PER_CLUSTER P \<and> distinct cs"
  proof -
    define k where "k = nat (len div (512 * int (SECTORS_PER_CLUSTER P)))"
    have k: "k < length cs" using slack_index [OF assms, of "SECTORS_PER_CLUSTER P"] h cs(1)
      by (simp add: k_def)
    then have "0 + k < length cs" by simp
    from follow_chain [OF cs(6) _ _ cs(3) this] h cs(3)
    have "follow st' k (cs ! 0) = cs ! (0 + k)" by simp
    moreover have "cs ! 0 = hd cs" using k by (cases cs) simp_all
    ultimately show ?thesis using k by (simp add: k_def)
  qed
  show "\<exists>cs. length cs = nat (len div 512) + 1
              \<and> fat_free st = cs @ fat_free st' \<and> 0 \<notin> set cs
              \<and> trace st' = trace st @ alloc_events P 0 cs
                      @ [DiskWrite sec (encode_inode (created_record P len cs))]
              \<and> disk st' = (\<lambda>s. if s = sec then encode_inode (created_record P len cs)
                         else if s \<in> cluster_to_sector P ` set cs then zeros else disk st s)
              \<and> (0 < SECTORS_PER_CLUSTER P \<and> distinct cs \<longrightarrow>
                    nat (len div (512 * int (SECTORS_PER_CLUSTER P))) < length cs
                    \<and> follow st' (nat (len div (512 * int (SECTORS_PER_CLUSTER P)))) (hd cs)
                        = cs ! nat (len div (512 * int (SECTORS_PER_CLUSTER P))))"
    using n cs(2,3,4,5) slack by blast
next
  assume h: "mem_free st \<noteq> [] \<and> nat (len div 512) + 1 \<le> length (fat_free st)
             \<and> 0 \<notin> set (take (nat (len div 512) + 1) (fat_free st))"
  define cs where "cs = take (nat (len div 512) + 1) (fat_free st)"
  have "fat_free st = cs @ drop (nat (len div 512) + 1) (fat_free st)" by (simp add: cs_def)
  moreover have "length cs = units_created len"
    using h assms by (simp add: cs_def units_created_def)
  moreover have "0 \<notin> set cs" using h by (simp add: cs_def)
  ultimately show "\<exists>st''. inode_create P st sec len = Inr (True, st'')"
    using inode_create_total [OF assms, of st cs _ P sec] h by blast
qed

theorem inode_create_units_witness:
  "\<exists>st'. inode_create P1 ex_state 110 1000 = Inr (True, st') \<and> fat_free st' = []
         \<and> disk st' 104 = zeros \<and> disk st' 105 = zeros"
proof -
  have len: "(0 :: int) \<le> 1000" by simp
  from inode_create_units [OF len, of P1 ex_state 110]
  obtain st' where c: "inode_create P1 ex_state 110 1000 = Inr (True, st')"
    by (auto simp: ex_state_def)
  note inode_create_units [OF len, of P1 ex_state 110 st', THEN conjunct1, THEN mp, OF c]
  then obtain cs where cs: "length cs = nat (1000 div 512) + 1"
    "fat_free ex_state = cs @ fat_free st'"
    "disk st' = (\<lambda>s. if s = 110 then encode_inode (created_record P1 1000 cs)
                         else if s \<in> cluster_to_sector P1 ` set cs then zeros else disk ex_state s)"
    by blast
  from cs(2) have "cs @ fat_free st' = [4, 5]" by (simp add: ex_state_def)
  then have "cs = take (length cs) [4, 5]" "fat_free st' = drop (length cs) [4, 5]"
    by (simp_all add: append_eq_conv_conj)
  with cs(1) have l: "cs = [4, 5]" "fat_free st' = []" by simp_all
  have "disk st' 104 = zeros" "disk st' 105 = zeros"
    by (simp_all add: cs(3) l P1_def)
  with l c show ?thesis by blast
qed

section \<open>Growth with an exhausted allocator\<close>

text \<open>
  What \<^verbatim>\<open>file_growth\<close> leaves behind when the allocator grants its last \<open>k\<close> units and
  then answers 0: from a sector-aligned length the new length is the old one plus \<open>512 k\<close>;
  from any other length it is the old one plus \<open>512 k + 512\<close>.
\<close>

lemma grow_chain_exhausted:
  assumes "fat_free st = cs" and "0 \<notin> set cs"
    and "growth + 512 * int (length cs) < new_length - origin_length"
    and "0 \<le> growth" and "growth mod 512 = 0"
  shows "\<exists>st'. grow_chain P st ino new_length origin_length growth last_clst
           = (False, st',
              ino\<lparr>data := (data ino)\<lparr>length_d :=
                (if c_mod origin_length 512 = 0
                 then origin_length + growth + 512 * int (length cs)
                 else origin_length + growth + 512 * int (length cs) + 512)\<rparr>\<rparr>)
         \<and> fat_free st' = []"
  using assms
proof (induction cs arbitrary: st growth last_clst)
  case Nil
  then have lt: "growth < new_length - origin_length" by simp
  have f: "fat_create_chain st last_clst = (0, st\<lparr>trace := trace st @ [FatCreateChain last_clst]\<rparr>)"
    using Nil.prems(1) by (simp add: fat_create_chain_def)
  have "c_mod growth 512 = 0" using Nil.prems(4,5) by (simp add: c_mod_nonneg)
  then show ?case
    using lt f Nil.prems(1) by (subst grow_chain.simps) (simp add: DISK_SECTOR_SIZE_def)
next
  case (Cons c cs)
  have lt: "growth < new_length - origin_length" using Cons.prems(3) by simp
  have c0: "c \<noteq> 0" using Cons.prems(2) by auto
  define st1 where "st1 = snd (fat_create_chain st last_clst)"
  have f: "fat_create_chain st last_clst = (c, st1)" and fr: "fat_free st1 = cs"
    using Cons.prems(1) by (simp_all add: fat_create_chain_def st1_def)
  define st2 where "st2 = disk_write st1 (cluster_to_sector P c) zeros"
  have e: "grow_chain P st ino new_length origin_length growth last_clst
             = grow_chain P st2 ino new_length origin_length (growth + 512) c"
    using lt f c0 by (subst grow_chain.simps) (simp add: st2_def DISK_SECTOR_SIZE_def)
  have "fat_free st2 = cs" using fr by (simp add: st2_def disk_write_def)
  moreover have "0 \<notin> set cs" using Cons.prems(2) by simp
  moreover have "growth + 512 + 512 * int (length cs) < new_length - origin_length"
    using Cons.prems(3) by simp
  moreover have "0 \<le> growth + 512" using Cons.prems(4) by simp
  moreover have "(growth + 512) mod 512 = 0" using Cons.prems(5) by simp
  ultimately have "\<exists>st'. grow_chain P st2 ino new_length origin_length (growth + 512) c
           = (False, st',
              ino\<lparr>data := (data ino)\<lparr>length_d :=
                (if c_mod origin_length 512 = 0
                 then origin_length + (growth + 512) + 512 * int (length cs)
                 else origin_length + (growth + 512) + 512 * int (length cs) + 512)\<rparr>\<rparr>)
         \<and> fat_free st' = []"
    by (rule Cons.IH)
  then obtain st' where
    r: "grow_chain P st2 ino new_length origin_length (growth + 512) c
           = (False, st',
              ino\<lparr>data := (data ino)\<lparr>length_d :=
                (if c_mod origin_length 512 = 0
                 then origin_length + (growth + 512) + 512 * int (length cs)
                 else origin_length + (growth + 512) + 512 * int (length cs) + 512)\<rparr>\<rparr>)"
    and fr': "fat_free st' = []"
    by blast
  have a: "origin_length + (growth + 512) + 512 * int (length cs)
             = origin_length + growth + 512 * int (length (c # cs))"
    by simp
  show ?case unfolding e r a using fr' by simp
qed

lemma file_growth_exhausted:
  assumes "0 \<notin> set (fat_free st)"
    and "512 * int (length (fat_free st)) < new_length - inode_length ino"
    and "c_mod (inode_length ino) 512 = 0
           \<or> new_length > inode_length ino - c_mod (inode_length ino) 512 + 512"
  shows "\<exists>st' ino'. file_growth P st ino new_length = (False, st', ino')
           \<and> inode_length ino' =
               (if c_mod (inode_length ino) 512 = 0
                then inode_length ino + 512 * int (length (fat_free st))
                else inode_length ino + 512 * int (length (fat_free st)) + 512)"
proof -
  define ino1 where "ino1 = ino\<lparr>data := (data ino)\<lparr>length_d := new_length\<rparr>\<rparr>"
  define lc where "lc = sector_to_cluster P (byte_to_sector P st ino (inode_length ino))"
  have e: "file_growth P st ino new_length
             = grow_chain P st ino1 new_length (inode_length ino) 0 lc"
    using assms(3) by (simp add: file_growth_def Let_def DISK_SECTOR_SIZE_def ino1_def lc_def)
  from grow_chain_exhausted [OF refl assms(1), of 0 new_length "inode_length ino" P ino1 lc]
    assms(2)
  obtain st' where "grow_chain P st ino1 new_length (inode_length ino) 0 lc
           = (False, st',
              ino1\<lparr>data := (data ino1)\<lparr>length_d :=
                (if c_mod (inode_length ino) 512 = 0
                 then inode_length ino + 0 + 512 * int (length (fat_free st))
                 else inode_length ino + 0 + 512 * int (length (fat_free st)) + 512)\<rparr>\<rparr>)"
    by auto
  with e show ?thesis by (simp add: inode_length_def)
qed

text \<open>
  Claim C1 at a length that is not sector-aligned.  A file of 100 bytes owns one unit
  (offsets 0 to 511).  Growing it to 2000 bytes with an exhausted allocator grants no
  unit (\<open>k = 0\<close>) and reports failure, but the length is rolled back to
  \<open>100 + 0 - 0 mod 512 + 512 = 612\<close>: the chain still ends after its first unit, and the
  translation of offset 512, which is below the new length, walks past the end of the
  chain.
\<close>

theorem file_growth_unaligned_exhausted:
  "file_growth P1 ex_full ex_small 2000
     = (False, ex_full\<lparr>trace := [FatCreateChain 2]\<rparr>,
        ex_small\<lparr>data := ex_data\<lparr>length_d := 612\<rparr>\<rparr>)
   \<and> sector_to_cluster P1 (start (data ex_small)) = 2
   \<and> fat_get (ex_full\<lparr>trace := [FatCreateChain 2]\<rparr>) 2 = EOChain
   \<and> byte_to_sector P1 (ex_full\<lparr>trace := [FatCreateChain 2]\<rparr>)
        (ex_small\<lparr>data := ex_data\<lparr>length_d := 612\<rparr>\<rparr>) 512
       = cluster_to_sector P1 EOChain"
  by (simp add: file_growth_def grow_chain.simps Let_def inode_length_def ex_full_def ex_small_def
      ex_state_def ex_inode_def ex_data_def P1_def byte_to_sector_def c_div_def c_mod_def
      DISK_SECTOR_SIZE_def fat_create_chain_def fat_get_def to_sector_def EOChain_def)

section \<open>A write at offset 0 followed by a read\<close>

lemma c_mod_aligned: "c_mod (512 * int k) 512 = 0"
  by (simp add: c_mod_nonneg)

lemma chunk_at_aligned:
  assumes "inode_length ino = L" and "512 * int k < L"
  shows "chunk_size_of ino (L - 512 * int k) (512 * int k) = min 512 (L - 512 * int k)"
  using assms by (simp add: chunk_size_of_eq c_mod_aligned min_def)

lemma write_loop_content:
  assumes map: "\<And>st i. fat st = F \<Longrightarrow> 512 * int i < L
                  \<Longrightarrow> byte_to_sector P st ino (512 * int i) = sec_of i"
    and inj: "inj_on sec_of {i. 512 * int i < L}"
    and len: "inode_length ino = L" "int (length S) = L"
  shows "512 * int k \<le> L \<Longrightarrow> fat st = F
     \<Longrightarrow> bounce \<noteq> None \<or> mem_free st \<noteq> [] \<or> L mod 512 = 0
     \<Longrightarrow> \<exists>b' st'. write_loop P ino st S (L - 512 * int k) (512 * int k) (512 * int k) bounce
                      = (L, b', st')
           \<and> fat st' = F \<and> heap st' = heap st
           \<and> (\<forall>i. k \<le> i \<and> 512 * int i < L \<longrightarrow> chunk_ok L S i (disk st' (sec_of i)))
           \<and> (\<forall>s. (\<forall>i. k \<le> i \<and> 512 * int i < L \<longrightarrow> s \<noteq> sec_of i) \<longrightarrow> disk st' s = disk st s)
           \<and> (b' \<noteq> None \<or> mem_free st' \<noteq> [] \<or> L mod 512 = 0)"
proof (induction "nat (L - 512 * int k)" arbitrary: k st bounce rule: less_induct)
  case less
  show ?case
  proof (cases "512 * int k < L")
    case False
    with less.prems(1) have e: "L = 512 * int k" by simp
    have "write_loop P ino st S (L - 512 * int k) (512 * int k) (512 * int k) bounce
            = (512 * int k, bounce, st)"
      using e by (intro write_loop_stop) simp
    then show ?thesis using e less.prems by auto
  next
    case True
    define c where "c = min 512 (L - 512 * int k)"
    have cs: "chunk_size_of ino (L - 512 * int k) (512 * int k) = c"
      using chunk_at_aligned [OF len(1) True] by (simp add: c_def)
    have sec: "\<And>s. fat s = F \<Longrightarrow> byte_to_sector P s ino (512 * int k) = sec_of k"
      using map True by simp
    have later: "\<And>i. Suc k \<le> i \<Longrightarrow> 512 * int i < L \<Longrightarrow> sec_of i \<noteq> sec_of k"
    proof
      fix i assume "Suc k \<le> i" "512 * int i < L" "sec_of i = sec_of k"
      with inj True have "i = k" by (auto simp: inj_on_def)
      with \<open>Suc k \<le> i\<close> show False by simp
    qed
    show ?thesis
    proof (cases "c = 512")
      case full: True
      then have ge: "512 \<le> L - 512 * int k" by (simp add: c_def min_def split: if_splits)
      define st1 where "st1 = disk_write st (sec_of k) (take 512 (drop (512 * k) S))"
      have f1: "fat st1 = F" "heap st1 = heap st" "mem_free st1 = mem_free st"
        using less.prems(2) by (simp_all add: st1_def disk_write_def)
      have w: "write_loop P ino st S (L - 512 * int k) (512 * int k) (512 * int k) bounce
           = write_loop P ino
               (disk_write st (byte_to_sector P st ino (512 * int k))
                  (take 512 (drop (nat (512 * int k)) S)))
               S (L - 512 * int k - 512) (512 * int k + 512) (512 * int k + 512) bounce"
      proof (rule write_loop_full)
        show "0 < L - 512 * int k" using True by simp
        show "512 * int k < inode_length ino" using True len(1) by simp
        show "c_mod (512 * int k) 512 = 0" by (rule c_mod_aligned)
        show "chunk_size_of ino (L - 512 * int k) (512 * int k) = 512" using cs full by simp
      qed
      have a: "L - 512 * int k - 512 = L - 512 * int (Suc k)"
        "512 * int k + 512 = 512 * int (Suc k)" "nat (512 * int k) = 512 * k"
        by simp_all
      have step: "write_loop P ino st S (L - 512 * int k) (512 * int k) (512 * int k) bounce
           = write_loop P ino st1 S (L - 512 * int (Suc k)) (512 * int (Suc k))
               (512 * int (Suc k)) bounce"
        unfolding w a st1_def sec [OF less.prems(2)] ..
      have d: "nat (L - 512 * int (Suc k)) < nat (L - 512 * int k)" using True by simp
      have le: "512 * int (Suc k) \<le> L" using ge by simp
      have av1: "bounce \<noteq> None \<or> mem_free st1 \<noteq> [] \<or> L mod 512 = 0"
        using less.prems(3) f1 by simp
      have "\<exists>b' st'. write_loop P ino st1 S (L - 512 * int (Suc k)) (512 * int (Suc k))
                      (512 * int (Suc k)) bounce = (L, b', st')
           \<and> fat st' = F \<and> heap st' = heap st1
           \<and> (\<forall>i. Suc k \<le> i \<and> 512 * int i < L \<longrightarrow> chunk_ok L S i (disk st' (sec_of i)))
           \<and> (\<forall>s. (\<forall>i. Suc k \<le> i \<and> 512 * int i < L \<longrightarrow> s \<noteq> sec_of i)
                   \<longrightarrow> disk st' s = disk st1 s)
           \<and> (b' \<noteq> None \<or> mem_free st' \<noteq> [] \<or> L mod 512 = 0)"
        by (rule less.hyps [OF d le f1(1) av1])
      then obtain b' st' where
        r: "write_loop P ino st1 S (L - 512 * int (Suc k)) (512 * int (Suc k))
              (512 * int (Suc k)) bounce = (L, b', st')"
        and f: "fat st' = F" "heap st' = heap st1"
        and ok: "\<forall>i. Suc k \<le> i \<and> 512 * int i < L \<longrightarrow> chunk_ok L S i (disk st' (sec_of i))"
        and fr: "\<forall>s. (\<forall>i. Suc k \<le> i \<and> 512 * int i < L \<longrightarrow> s \<noteq> sec_of i)
                   \<longrightarrow> disk st' s = disk st1 s"
        and av: "b' \<noteq> None \<or> mem_free st' \<noteq> [] \<or> L mod 512 = 0"
        by (elim exE conjE)
      have "\<forall>i. Suc k \<le> i \<and> 512 * int i < L \<longrightarrow> sec_of k \<noteq> sec_of i"
        using later by fastforce
      with fr have "disk st' (sec_of k) = disk st1 (sec_of k)" by simp
      then have k_ok: "chunk_ok L S k (disk st' (sec_of k))"
        using ge by (simp add: chunk_ok_def st1_def disk_write_def)
      have all_ok: "\<forall>i. k \<le> i \<and> 512 * int i < L \<longrightarrow> chunk_ok L S i (disk st' (sec_of i))"
      proof (intro allI impI)
        fix i assume i: "k \<le> i \<and> 512 * int i < L"
        show "chunk_ok L S i (disk st' (sec_of i))"
        proof (cases "i = k")
          case True
          then show ?thesis using k_ok by simp
        next
          case False
          with i have "Suc k \<le> i" by simp
          with ok i show ?thesis by simp
        qed
      qed
      have frame: "\<forall>s. (\<forall>i. k \<le> i \<and> 512 * int i < L \<longrightarrow> s \<noteq> sec_of i) \<longrightarrow> disk st' s = disk st s"
      proof (intro allI impI)
        fix s assume s: "\<forall>i. k \<le> i \<and> 512 * int i < L \<longrightarrow> s \<noteq> sec_of i"
        then have "disk st' s = disk st1 s" using fr by simp
        moreover have "s \<noteq> sec_of k" using s True by simp
        ultimately show "disk st' s = disk st s" by (simp add: st1_def disk_write_def)
      qed
      show ?thesis using step r f f1 all_ok frame av by simp
    next
      case part: False
      then have lt: "L - 512 * int k < 512" and c: "c = L - 512 * int k"
        by (simp_all add: c_def min_def split: if_splits)
      have nz: "L mod 512 \<noteq> 0"
      proof
        assume "L mod 512 = 0"
        then obtain q where "L = 512 * q" by auto
        with lt True show False by simp
      qed
      from malloc_cases [of bounce st] less.prems(3) nz
      obtain b st0 where m: "(if bounce = None then malloc st else (bounce, st)) = (Some b, st0)"
        and m0: "disk st0 = disk st" "fat st0 = fat st" "heap st0 = heap st"
        by auto
      define st1 where "st1 = disk_write
                  (partial_state st0 (sec_of k) 0 c) (sec_of k)
                  (partial_sector st0 (sec_of k) S (512 * int k) 0 c)"
      have f1: "fat st1 = F" "heap st1 = heap st"
        using less.prems(2) m0 by (simp_all add: st1_def disk_write_def partial_state_def)
      have np: "\<not> (c_mod (512 * int k) 512 = 0
                  \<and> chunk_size_of ino (L - 512 * int k) (512 * int k) = 512)"
        using cs part by simp
      have step: "write_loop P ino st S (L - 512 * int k) (512 * int k) (512 * int k) bounce
           = write_loop P ino st1 S 0 L L (Some b)"
        using write_loop_partial [OF _ _ np m, of P S "512 * int k"]
          True len(1) cs sec [OF less.prems(2)] c
        by (simp add: c_mod_aligned st1_def)
      have stop: "write_loop P ino st1 S 0 L L (Some b) = (L, Some b, st1)"
        by (intro write_loop_stop) simp
      have new: "disk st1 (sec_of k) = partial_sector st0 (sec_of k) S (512 * int k) 0 c"
        by (simp add: st1_def disk_write_def)
      have "length (drop (512 * k) S) = nat c"
        using len(2) c True by (simp add: nat_diff_distrib nat_mult_distrib)
      then have "take (nat c) (partial_sector st0 (sec_of k) S (512 * int k) 0 c)
                   = drop (512 * k) S"
        by (simp add: partial_sector_def Let_def nat_mult_distrib)
      then have k_ok: "chunk_ok L S k (disk st1 (sec_of k))"
        using lt c new by (simp add: chunk_ok_def)
      have all_ok: "\<forall>i. k \<le> i \<and> 512 * int i < L \<longrightarrow> chunk_ok L S i (disk st1 (sec_of i))"
      proof (intro allI impI)
        fix i assume i: "k \<le> i \<and> 512 * int i < L"
        have "i = k"
        proof (rule ccontr)
          assume "i \<noteq> k"
          with i have "Suc k \<le> i" by simp
          then have "512 * int k + 512 \<le> 512 * int i" by simp
          with i lt show False by simp
        qed
        then show "chunk_ok L S i (disk st1 (sec_of i))" using k_ok by simp
      qed
      have frame: "\<forall>s. (\<forall>i. k \<le> i \<and> 512 * int i < L \<longrightarrow> s \<noteq> sec_of i) \<longrightarrow> disk st1 s = disk st s"
        using True m0 by (auto simp: st1_def disk_write_def partial_state_def)
      show ?thesis using step stop f1 all_ok frame by simp
    qed
  qed
qed

lemma read_loop_content:
  assumes map: "\<And>st i. fat st = F \<Longrightarrow> 512 * int i < L
                  \<Longrightarrow> byte_to_sector P st ino (512 * int i) = sec_of i"
    and len: "inode_length ino = L" "int (length S) = L"
  shows "512 * int k \<le> L \<Longrightarrow> fat st = F
     \<Longrightarrow> bounce \<noteq> None \<or> mem_free st \<noteq> [] \<or> L mod 512 = 0
     \<Longrightarrow> \<forall>i. k \<le> i \<and> 512 * int i < L \<longrightarrow> chunk_ok L S i (disk st (sec_of i))
     \<Longrightarrow> \<exists>b' st'. read_loop P ino st buf (L - 512 * int k) (512 * int k) (512 * int k) bounce
                      = (L, buf @ drop (512 * k) S, b', st')"
proof (induction "nat (L - 512 * int k)" arbitrary: k st bounce buf rule: less_induct)
  case less
  show ?case
  proof (cases "512 * int k < L")
    case False
    with less.prems(1) have e: "L = 512 * int k" by simp
    have "read_loop P ino st buf (L - 512 * int k) (512 * int k) (512 * int k) bounce
            = (512 * int k, buf, bounce, st)"
      using e by (intro read_loop_stop) simp
    moreover have "drop (512 * k) S = []" using len(2) e by simp
    ultimately show ?thesis using e by simp
  next
    case True
    define c where "c = min 512 (L - 512 * int k)"
    have cs: "chunk_size_of ino (L - 512 * int k) (512 * int k) = c"
      using chunk_at_aligned [OF len(1) True] by (simp add: c_def)
    have sec: "\<And>s. fat s = F \<Longrightarrow> byte_to_sector P s ino (512 * int k) = sec_of k"
      using map True by simp
    have k_ok: "chunk_ok L S k (disk st (sec_of k))" using less.prems(4) True by simp
    show ?thesis
    proof (cases "c = 512")
      case full: True
      then have ge: "512 \<le> L - 512 * int k" by (simp add: c_def min_def split: if_splits)
      define st1 where "st1 = st\<lparr>trace := trace st @ [DiskRead (sec_of k)]\<rparr>"
      define buf1 where "buf1 = buf @ disk st (sec_of k)"
      have f1: "fat st1 = F" "mem_free st1 = mem_free st" "disk st1 = disk st"
        using less.prems(2) by (simp_all add: st1_def)
      have w: "read_loop P ino st buf (L - 512 * int k) (512 * int k) (512 * int k) bounce
           = read_loop P ino
               (st\<lparr>trace := trace st @ [DiskRead (byte_to_sector P st ino (512 * int k))]\<rparr>)
               (buf @ disk st (byte_to_sector P st ino (512 * int k)))
               (L - 512 * int k - 512) (512 * int k + 512) (512 * int k + 512) bounce"
      proof (rule read_loop_full)
        show "0 < L - 512 * int k" using True by simp
        show "512 * int k < inode_length ino" using True len(1) by simp
        show "c_mod (512 * int k) 512 = 0" by (rule c_mod_aligned)
        show "chunk_size_of ino (L - 512 * int k) (512 * int k) = 512" using cs full by simp
      qed
      have a: "L - 512 * int k - 512 = L - 512 * int (Suc k)"
        "512 * int k + 512 = 512 * int (Suc k)"
        by simp_all
      have step: "read_loop P ino st buf (L - 512 * int k) (512 * int k) (512 * int k) bounce
           = read_loop P ino st1 buf1 (L - 512 * int (Suc k)) (512 * int (Suc k))
               (512 * int (Suc k)) bounce"
        unfolding w a st1_def buf1_def sec [OF less.prems(2)] ..
      have d: "nat (L - 512 * int (Suc k)) < nat (L - 512 * int k)" using True by simp
      have le: "512 * int (Suc k) \<le> L" using ge by simp
      have av1: "bounce \<noteq> None \<or> mem_free st1 \<noteq> [] \<or> L mod 512 = 0"
        using less.prems(3) f1 by simp
      have ok1: "\<forall>i. Suc k \<le> i \<and> 512 * int i < L \<longrightarrow> chunk_ok L S i (disk st1 (sec_of i))"
        using less.prems(4) f1 by simp
      have "\<exists>b' st'. read_loop P ino st1 buf1 (L - 512 * int (Suc k)) (512 * int (Suc k))
                      (512 * int (Suc k)) bounce = (L, buf1 @ drop (512 * Suc k) S, b', st')"
        by (rule less.hyps [OF d le f1(1) av1 ok1])
      moreover have "disk st (sec_of k) = take 512 (drop (512 * k) S)"
        using k_ok ge by (simp add: chunk_ok_def)
      then have "buf1 @ drop (512 * Suc k) S = buf @ drop (512 * k) S"
        by (simp add: buf1_def) (metis add.commute append_take_drop_id drop_drop)
      ultimately show ?thesis using step by simp
    next
      case part: False
      then have lt: "L - 512 * int k < 512" and c: "c = L - 512 * int k"
        by (simp_all add: c_def min_def split: if_splits)
      have nz: "L mod 512 \<noteq> 0"
      proof
        assume "L mod 512 = 0"
        then obtain q where "L = 512 * q" by auto
        with lt True show False by simp
      qed
      from malloc_cases [of bounce st] less.prems(3) nz
      obtain b st0 where m: "(if bounce = None then malloc st else (bounce, st)) = (Some b, st0)"
        and m0: "disk st0 = disk st" "fat st0 = fat st" "heap st0 = heap st"
        by auto
      define st1 where "st1 = st0\<lparr>trace := trace st0 @ [DiskRead (sec_of k)]\<rparr>"
      have np: "\<not> (c_mod (512 * int k) 512 = 0
                  \<and> chunk_size_of ino (L - 512 * int k) (512 * int k) = 512)"
        using cs part by simp
      have "take (nat c) (disk st (sec_of k)) = drop (512 * k) S"
        using k_ok lt c by (simp add: chunk_ok_def)
      then have step: "read_loop P ino st buf (L - 512 * int k) (512 * int k) (512 * int k) bounce
           = read_loop P ino st1 (buf @ drop (512 * k) S) 0 L L (Some b)"
        using read_loop_partial [OF _ _ np m, of P buf "512 * int k"]
          True len(1) cs sec [OF less.prems(2)] c m0
        by (simp add: c_mod_aligned st1_def)
      have stop: "read_loop P ino st1 (buf @ drop (512 * k) S) 0 L L (Some b)
                    = (L, buf @ drop (512 * k) S, Some b, st1)"
        by (intro read_loop_stop) simp
      show ?thesis using step stop by simp
    qed
  qed
qed

lemma write_loop_short_without_memory:
  assumes len: "inode_length ino = L" and nz: "L mod 512 \<noteq> 0"
  shows "512 * int k \<le> L \<Longrightarrow> mem_free st = []
     \<Longrightarrow> fst (write_loop P ino st S (L - 512 * int k) (512 * int k) (512 * int k) None) < L"
proof (induction "nat (L - 512 * int k)" arbitrary: k st rule: less_induct)
  case less
  have True: "512 * int k < L"
  proof (rule ccontr)
    assume "\<not> 512 * int k < L"
    with less.prems(1) have "L = 512 * int k" by simp
    with nz show False by simp
  qed
  define c where "c = min 512 (L - 512 * int k)"
  have cs: "chunk_size_of ino (L - 512 * int k) (512 * int k) = c"
    using chunk_at_aligned [OF len True] by (simp add: c_def)
  show ?case
  proof (cases "c = 512")
    case full: True
    then have ge: "512 \<le> L - 512 * int k" by (simp add: c_def min_def split: if_splits)
    define st1 where "st1 = disk_write st (byte_to_sector P st ino (512 * int k))
                  (take 512 (drop (nat (512 * int k)) S))"
    have w: "write_loop P ino st S (L - 512 * int k) (512 * int k) (512 * int k) None
           = write_loop P ino st1 S (L - 512 * int k - 512) (512 * int k + 512)
               (512 * int k + 512) None"
      unfolding st1_def
    proof (rule write_loop_full)
      show "0 < L - 512 * int k" using True by simp
      show "512 * int k < inode_length ino" using True len by simp
      show "c_mod (512 * int k) 512 = 0" by (rule c_mod_aligned)
      show "chunk_size_of ino (L - 512 * int k) (512 * int k) = 512" using cs full by simp
    qed
    have a: "L - 512 * int k - 512 = L - 512 * int (Suc k)"
      "512 * int k + 512 = 512 * int (Suc k)"
      by simp_all
    have d: "nat (L - 512 * int (Suc k)) < nat (L - 512 * int k)" using True by simp
    have le: "512 * int (Suc k) \<le> L" using ge by simp
    have m1: "mem_free st1 = []" using less.prems(2) by (simp add: st1_def disk_write_def)
    have "fst (write_loop P ino st1 S (L - 512 * int (Suc k)) (512 * int (Suc k))
                 (512 * int (Suc k)) None) < L"
      by (rule less.hyps [OF d le m1])
    then show ?thesis unfolding w a .
  next
    case part: False
    have np: "\<not> (c_mod (512 * int k) 512 = 0
                \<and> chunk_size_of ino (L - 512 * int k) (512 * int k) = 512)"
      using cs part by simp
    have m: "(if (None :: nat option) = None then malloc st else (None, st)) = (None, st)"
      using less.prems(2) by (simp add: malloc_def)
    have "write_loop P ino st S (L - 512 * int k) (512 * int k) (512 * int k) None
            = (512 * int k, None, st)"
      using write_loop_partial_none [OF _ _ np m, of P S "512 * int k"] True len by simp
    then show ?thesis using True by simp
  qed
qed

section \<open>The record read back from the device\<close>

lemma length_nat_le: "length (nat_le k n) = k"
  by (induction k arbitrary: n) simp_all

lemma le_nat_nat_le: "le_nat (nat_le k n) = n mod 256 ^ k"
proof (induction k arbitrary: n)
  case 0
  then show ?case by simp
next
  case (Suc k)
  have "unat (of_nat n :: byte) = n mod 256" by (simp add: unat_of_nat)
  then have "le_nat (nat_le (Suc k) n) = n mod 256 + 256 * (n div 256 mod 256 ^ k)"
    by (simp add: Suc.IH)
  also have "\<dots> = n mod (256 * 256 ^ k)"
    by (simp add: mod_mult2_eq)
  finally show ?case by simp
qed

lemma le_nat_nat_le4: "n < 4294967296 \<Longrightarrow> le_nat (nat_le 4 n) = n"
  using le_nat_nat_le [of 4 n] by simp

lemma decode_encode_off:
  assumes "- 2147483648 \<le> i" and "i < 2147483648"
  shows "decode_off (encode_off i) = i"
proof (cases "0 \<le> i")
  case True
  then have "nat (i mod 4294967296) = nat i" using assms by simp
  moreover have "nat i < 4294967296" using assms True by simp
  ultimately show ?thesis
    using True assms by (simp add: decode_off_def encode_off_def le_nat_nat_le4 Let_def)
next
  case False
  have "i mod 4294967296 = (i + 4294967296) mod 4294967296" by simp
  also have "\<dots> = i + 4294967296"
    using False assms by (intro mod_pos_pos_trivial) simp_all
  finally have m: "i mod 4294967296 = i + 4294967296" .
  have "nat (i + 4294967296) < 4294967296" using False assms by simp
  then show ?thesis
    using False assms m by (simp add: decode_off_def encode_off_def le_nat_nat_le4 Let_def)
qed

lemma decode_encode_inode:
  assumes "start d < 4294967296" and "magic d < 4294967296"
    and "- 2147483648 \<le> length_d d" and "length_d d < 2147483648"
  shows "decode_inode (encode_inode d) = d"
proof -
  have "take 4 (nat_le 4 (start d) @ encode_off (length_d d) @ nat_le 4 (magic d) @ unused d)
          = nat_le 4 (start d)"
    by (simp add: length_nat_le)
  moreover have "take 4 (drop 4 (nat_le 4 (start d) @ encode_off (length_d d)
                    @ nat_le 4 (magic d) @ unused d)) = encode_off (length_d d)"
    by (simp add: length_nat_le encode_off_def)
  moreover have "take 4 (drop 8 (nat_le 4 (start d) @ encode_off (length_d d)
                    @ nat_le 4 (magic d) @ unused d)) = nat_le 4 (magic d)"
    by (simp add: length_nat_le encode_off_def)
  moreover have "drop 12 (nat_le 4 (start d) @ encode_off (length_d d)
                    @ nat_le 4 (magic d) @ unused d) = unused d"
    by (simp add: length_nat_le encode_off_def)
  ultimately show ?thesis
    using assms
    by (simp add: decode_inode_def encode_inode_def le_nat_nat_le4 decode_encode_off)
qed

section \<open>The sectors of a freshly created file\<close>

lemma piece_index:
  assumes "512 * int i < L" and "0 < (s :: nat)"
  shows "i div s < units_created L"
proof -
  have "int i \<le> L div 512" using assms(1) by (simp add: zdiv_int pos_imp_zdiv_nonneg_iff)
  then have a: "i \<le> nat (L div 512)" by simp
  have b: "i div s \<le> i" by (rule div_le_dividend)
  have c: "0 \<le> L" using assms(1) by simp
  from a b have "i div s < nat (L div 512) + 1" by linarith
  with c show ?thesis by (simp add: units_created_def)
qed

lemma created_sector_map:
  assumes ok: "units_ok P cs" and nz: "0 \<notin> set cs" and n: "length cs = units_created L"
    and f: "fat st = link_chain F0 0 cs" and d: "data ino = created_record P L cs"
    and i: "512 * int i < L"
  shows "byte_to_sector P st ino (512 * int i) = file_sector P cs i"
proof -
  define s where "s = SECTORS_PER_CLUSTER P"
  have s: "0 < s" and dist: "distinct cs"
    and inv: "sector_to_cluster P (cluster_to_sector P (hd cs)) = hd cs"
    using ok by (simp_all add: units_ok_def s_def)
  have k: "i div s < length cs" using piece_index [OF i s] n by simp
  then have ne: "cs \<noteq> []" by auto
  have u: "(512 * int i) div (512 * int s) = int (i div s)"
    by (simp add: zdiv_int)
  have "0 + i div s < length cs" using k by simp
  from follow_chain [OF f dist _ nz this]
  have "follow st (i div s) (cs ! 0) = cs ! (i div s)" using nz by simp
  then have w: "(fat_get st ^^ (i div s)) (hd cs) = cs ! (i div s)"
    using ne by (simp add: follow_funpow hd_conv_nth)
  have "int (i div s * s + i mod s) = int i" by (simp only: div_mult_mod_eq)
  then have "int (i div s) * int s + int (i mod s) = int i"
    by (simp only: of_nat_add of_nat_mult)
  then have "512 * int i - int (i div s) * int s * 512 = 512 * int (i mod s)"
    by linarith
  then have r: "(512 * int i - int (i div s) * int s * 512) div 512 = int (i mod s)"
    by simp
  have "translate P st ino (512 * int i)
          = cluster_to_sector P
              ((fat_get st ^^ nat ((512 * int i) div (512 * int s)))
                 (sector_to_cluster P (start (data ino))))
            + nat ((512 * int i - (512 * int i) div (512 * int s) * int s * 512) div 512)"
    by (simp add: translate_def Let_def DISK_SECTOR_SIZE_def s_def)
  also have "\<dots> = cluster_to_sector P ((fat_get st ^^ (i div s)) (hd cs)) + i mod s"
    unfolding u r by (simp add: d created_record_def inv)
  also have "\<dots> = file_sector P cs i"
    using w by (simp add: file_sector_def s_def)
  finally have t: "translate P st ino (512 * int i) = file_sector P cs i" .
  have "cs ! (i div s) \<in> set cs" using k by simp
  then have "cluster_to_sector P (cs ! (i div s)) + s \<le> SECTOR_NONE"
    using ok by (simp add: units_ok_def s_def)
  moreover have "i mod s < s" using s by simp
  ultimately have v: "file_sector P cs i < SECTOR_NONE"
    by (simp add: file_sector_def s_def)
  have "512 * int i \<le> length_d (data ino)" using i d by (simp add: created_record_def)
  then show ?thesis
    using byte_to_sector_inside [of "512 * int i" P ino st] s t v by (simp add: s_def)
qed

lemma file_sector_inj:
  assumes ok: "units_ok P cs" and n: "length cs = units_created L"
  shows "inj_on (file_sector P cs) {i. 512 * int i < L}"
proof (rule inj_onI)
  fix i j
  assume "i \<in> {i. 512 * int i < L}" "j \<in> {i. 512 * int i < L}"
    and e: "file_sector P cs i = file_sector P cs j"
  then have i: "512 * int i < L" and j: "512 * int j < L" by simp_all
  define s where "s = SECTORS_PER_CLUSTER P"
  have s: "0 < s" and dist: "distinct cs" using ok by (simp_all add: units_ok_def s_def)
  have ki: "i div s < length cs" using piece_index [OF i s] n by simp
  have kj: "j div s < length cs" using piece_index [OF j s] n by simp
  define c where "c = cs ! (i div s)"
  define d where "d = cs ! (j div s)"
  have mem: "c \<in> set cs" "d \<in> set cs" using ki kj by (simp_all add: c_def d_def)
  have e': "cluster_to_sector P c + i mod s = cluster_to_sector P d + j mod s"
    using e by (simp add: file_sector_def s_def c_def d_def)
  have lt: "i mod s < s" "j mod s < s" using s by simp_all
  have "c = d \<or> cluster_to_sector P c + s \<le> cluster_to_sector P d
          \<or> cluster_to_sector P d + s \<le> cluster_to_sector P c"
    using ok mem by (simp add: units_ok_def s_def)
  then have cd: "c = d" using e' lt by linarith
  then have "i div s = j div s"
    using dist ki kj by (simp add: c_def d_def nth_eq_iff_index_eq)
  moreover have "i mod s = j mod s" using e' cd by simp
  ultimately have "i div s * s + i mod s = j div s * s + j mod s" by simp
  then show "i = j" by (simp only: div_mult_mod_eq)
qed

lemma write_read_round_trip:
  assumes map: "\<And>st i. fat st = F \<Longrightarrow> 512 * int i < L
                  \<Longrightarrow> byte_to_sector P st ino (512 * int i) = sec_of i"
    and inj: "inj_on sec_of {i. 512 * int i < L}"
    and len: "inode_length ino = L" "int (length S) = L" and L: "0 \<le> L"
    and h: "heap st h = Some ino" and dw: "deny_write_cnt ino = 0" and f: "fat st = F"
    and w: "inode_write_at P st (Some h) S L 0 = Inr (L, st')"
  shows "\<exists>st''. inode_read_at P st' (Some h) L 0 = Inr (L, S, st'')"
proof -
  obtain n b' st1 where wl: "write_loop P ino st S L 0 0 None = (n, b', st1)"
    using prod_cases3 by blast
  have "\<not> off_add 0 L > inode_length ino"
    using off_add_le [of 0 L] L len(1) by simp
  then have w': "inode_write_at P st (Some h) S L 0
              = Inr (n, (free st1 b')\<lparr>heap := (heap st1)(h \<mapsto> ino)\<rparr>)"
    using h dw wl by (simp add: inode_write_at_def)
  with w have n: "n = L" and st': "st' = (free st1 b')\<lparr>heap := (heap st1)(h \<mapsto> ino)\<rparr>"
    by simp_all
  have av: "(None :: nat option) \<noteq> None \<or> mem_free st \<noteq> [] \<or> L mod 512 = 0"
  proof (rule ccontr)
    assume "\<not> ((None :: nat option) \<noteq> None \<or> mem_free st \<noteq> [] \<or> L mod 512 = 0)"
    then have "mem_free st = []" "L mod 512 \<noteq> 0" by simp_all
    from write_loop_short_without_memory [OF len(1) this(2) _ this(1), of 0 P S]
    have "fst (write_loop P ino st S L 0 0 None) < L" using L by simp
    with wl n show False by simp
  qed
  have "\<exists>b' st'. write_loop P ino st S (L - 512 * int 0) (512 * int 0) (512 * int 0) None
                      = (L, b', st')
           \<and> fat st' = F \<and> heap st' = heap st
           \<and> (\<forall>i. 0 \<le> i \<and> 512 * int i < L \<longrightarrow> chunk_ok L S i (disk st' (sec_of i)))
           \<and> (\<forall>s. (\<forall>i. 0 \<le> i \<and> 512 * int i < L \<longrightarrow> s \<noteq> sec_of i) \<longrightarrow> disk st' s = disk st s)
           \<and> (b' \<noteq> None \<or> mem_free st' \<noteq> [] \<or> L mod 512 = 0)"
    using L f av by (intro write_loop_content [OF map inj len]) simp_all
  with wl have f1: "fat st1 = F"
    and ok: "\<forall>i. 0 \<le> i \<and> 512 * int i < L \<longrightarrow> chunk_ok L S i (disk st1 (sec_of i))"
    and av1: "b' \<noteq> None \<or> mem_free st1 \<noteq> [] \<or> L mod 512 = 0"
    by simp_all
  have s': "fat st' = F" "disk st' = disk st1" "heap st' h = Some ino"
    using f1 by (simp_all add: st' free_def split: option.splits)
  have av': "(None :: nat option) \<noteq> None \<or> mem_free st' \<noteq> [] \<or> L mod 512 = 0"
    using av1 by (auto simp: st' free_def split: option.splits)
  have ok': "\<forall>i. 0 \<le> i \<and> 512 * int i < L \<longrightarrow> chunk_ok L S i (disk st' (sec_of i))"
    using ok s' by simp
  have "\<exists>b'' st''. read_loop P ino st' [] (L - 512 * int 0) (512 * int 0) (512 * int 0) None
                      = (L, [] @ drop (512 * 0) S, b'', st'')"
    using L s'(1) av' ok' by (intro read_loop_content [OF map len]) simp_all
  then obtain b'' st'' where "read_loop P ino st' [] L 0 0 None = (L, S, b'', st'')"
    by auto
  then show ?thesis using s'(3) by (simp add: inode_read_at_def)
qed

section \<open>Round trip\<close>

text \<open>
  Claim C4.  A file of \<open>L\<close> bytes is created (the creation succeeds) in a sector that no
  open inode uses, and opened; a byte sequence \<open>S\<close> of length \<open>L\<close> is written at offset 0,
  the write reporting \<open>L\<close> bytes.  Then a read of \<open>L\<close> bytes at offset 0 returns exactly
  \<open>S\<close> and reports \<open>L\<close> bytes.  The units the allocator grants are pairwise different,
  with disjoint sector ranges, and \<open>L\<close> fits \<^verbatim>\<open>off_t\<close>.
\<close>

theorem create_write_read_round_trip:
  assumes ok: "units_ok P (take (nat (L div 512) + 1) (fat_free st))"
    and L: "0 \<le> L" "L < 2147483648" and S: "int (length S) = L"
    and unreg: "\<forall>b\<in>set (open_inodes st). \<forall>i. heap st b = Some i \<longrightarrow> sector i \<noteq> sec"
    and c: "inode_create P st sec L = Inr (True, st1)"
    and o: "inode_open st1 sec = Inr (Some h, st2)"
    and w: "inode_write_at P st2 (Some h) S L 0 = Inr (L, st3)"
  shows "\<exists>st4. inode_read_at P st3 (Some h) L 0 = Inr (L, S, st4)"
proof -
  from inode_create_success [OF L(1) c]
  obtain cs where cs: "length cs = units_created L" "fat_free st = cs @ fat_free st1"
     "0 \<notin> set cs"
     and d1: "disk st1 = (\<lambda>s. if s = sec then encode_inode (created_record P L cs)
                         else if s \<in> cluster_to_sector P ` set cs then zeros else disk st s)"
     and fr: "mem_free st1 = mem_free st" "heap st1 = heap st" "open_inodes st1 = open_inodes st"
     and f1: "fat st1 = link_chain (fat st) 0 cs"
    by blast
  have n: "units_created L = nat (L div 512) + 1" using L(1) by (simp add: units_created_def)
  have "cs = take (length cs) (fat_free st)" using cs(2) by simp
  then have ok': "units_ok P cs" using ok cs(1) n by simp
  have ne: "cs \<noteq> []" using cs(1) n by auto
  have unreg1: "\<forall>b\<in>set (open_inodes st1). \<forall>i. heap st1 b = Some i \<longrightarrow> sector i \<noteq> sec"
    using unreg fr by simp
  obtain a rest where m: "mem_free st1 = a # rest"
  proof (cases "mem_free st1")
    case Nil
    from inode_open_no_memory [OF unreg1 Nil] o show ?thesis by simp
  next
    case (Cons a rest)
    then show ?thesis by (rule that)
  qed
  define ino where "ino = fresh_inode st1 sec"
  from inode_open_fresh [OF unreg1 m] o
  have h: "h = a"
    and st2: "st2 = st1\<lparr>mem_free := rest, open_inodes := a # open_inodes st1,
                         trace := trace st1 @ [DiskRead sec],
                         heap := (heap st1)(a \<mapsto> ino)\<rparr>"
    by (simp_all add: ino_def)
  have "hd cs \<in> set cs" using ne by simp
  then have "cluster_to_sector P (hd cs) + SECTORS_PER_CLUSTER P \<le> SECTOR_NONE"
    using ok' by (simp add: units_ok_def)
  then have "start (created_record P L cs) < 4294967296"
    by (simp add: created_record_def SECTOR_NONE_def)
  moreover have "magic (created_record P L cs) < 4294967296"
    by (simp add: created_record_def INODE_MAGIC_def)
  moreover have "- 2147483648 \<le> length_d (created_record P L cs)"
    "length_d (created_record P L cs) < 2147483648"
    using L by (simp_all add: created_record_def)
  ultimately have "decode_inode (encode_inode (created_record P L cs)) = created_record P L cs"
    by (rule decode_encode_inode)
  then have dat: "data ino = created_record P L cs"
    by (simp add: ino_def fresh_inode_def d1)
  have len: "inode_length ino = L" by (simp add: inode_length_def dat created_record_def)
  have dw: "deny_write_cnt ino = 0" by (simp add: ino_def fresh_inode_def)
  have hp: "heap st2 h = Some ino" by (simp add: st2 h)
  have f2: "fat st2 = fat st1" by (simp add: st2)
  have map: "\<And>s i. fat s = fat st1 \<Longrightarrow> 512 * int i < L
                 \<Longrightarrow> byte_to_sector P s ino (512 * int i) = file_sector P cs i"
    using created_sector_map [OF ok' cs(3,1) _ dat] f1 by simp
  have inj: "inj_on (file_sector P cs) {i. 512 * int i < L}"
    by (rule file_sector_inj [OF ok' cs(1)])
  show ?thesis
    by (rule write_read_round_trip [OF map inj len S L(1) hp dw f2 w])
qed

theorem create_write_read_round_trip_witness:
  "\<exists>st1 st2 st3 st4.
     inode_create P1 ex_state 110 3 = Inr (True, st1)
     \<and> inode_open st1 110 = Inr (Some 2000, st2)
     \<and> inode_write_at P1 st2 (Some 2000) [1, 2, 3] 3 0 = Inr (3, st3)
     \<and> inode_read_at P1 st3 (Some 2000) 3 0 = Inr (3, [1, 2, 3], st4)"
proof -
  have L: "(0 :: int) \<le> 3" "(3 :: int) < 2147483648" by simp_all
  have ok: "units_ok P1 (take (nat (3 div 512) + 1) (fat_free ex_state))"
    by (simp add: units_ok_def P1_def ex_state_def SECTOR_NONE_def)
  have unreg: "\<forall>b\<in>set (open_inodes ex_state). \<forall>i. heap ex_state b = Some i \<longrightarrow> sector i \<noteq> 110"
    by (simp add: ex_state_def ex_inode_def)
  have "fat_free ex_state = [4] @ [5]" "length [4 :: nat] = units_created 3"
    "0 \<notin> set [4 :: nat]" "mem_free ex_state \<noteq> []"
    by (simp_all add: ex_state_def units_created_def)
  from inode_create_total [OF L(1) this(4) this(1,2,3), of P1 110]
  obtain st1 where c: "inode_create P1 ex_state 110 3 = Inr (True, st1)" by blast
  from inode_create_success [OF L(1) c]
  have fr: "mem_free st1 = mem_free ex_state" "heap st1 = heap ex_state"
    "open_inodes st1 = open_inodes ex_state"
    by auto
  have unreg1: "\<forall>b\<in>set (open_inodes st1). \<forall>i. heap st1 b = Some i \<longrightarrow> sector i \<noteq> 110"
    using unreg fr by simp
  have m: "mem_free st1 = 2000 # [3000]" using fr by (simp add: ex_state_def)
  define st2 where "st2 = st1\<lparr>mem_free := [3000], open_inodes := 2000 # open_inodes st1,
                              trace := trace st1 @ [DiskRead 110],
                              heap := (heap st1)(2000 \<mapsto> fresh_inode st1 110)\<rparr>"
  have o: "inode_open st1 110 = Inr (Some 2000, st2)"
    unfolding st2_def by (rule inode_open_fresh [OF unreg1 m])
  have hp: "heap st2 2000 = Some (fresh_inode st1 110)" by (simp add: st2_def)
  have dw: "deny_write_cnt (fresh_inode st1 110) = 0" by (simp add: fresh_inode_def)
  have "length_d (data (fresh_inode st1 110)) = 3"
  proof -
    from inode_create_success [OF L(1) c]
    obtain cs where "disk st1 110 = encode_inode (created_record P1 3 cs)" by auto
    moreover have "decode_off (encode_off 3) = 3" by (rule decode_encode_off) simp_all
    then have "decode_off (nat_le 4 3) = 3" by (simp add: encode_off_def)
    ultimately show ?thesis
      by (simp add: fresh_inode_def decode_inode_def encode_inode_def created_record_def
          length_nat_le encode_off_def)
  qed
  then have len: "inode_length (fresh_inode st1 110) = 3" by (simp add: inode_length_def)
  from inode_write_at_result [OF hp dw, of 0 3 P1 "[1, 2, 3]"] len
  obtain st3 where w: "inode_write_at P1 st2 (Some 2000) [1, 2, 3] 3 0 = Inr (3, st3)"
    by (auto simp: st2_def off_add_def)
  have S: "int (length [1, 2, 3 :: byte]) = 3" by simp
  from create_write_read_round_trip [OF ok L S unreg c o w] c o w
  show ?thesis by blast
qed

end
